theory Spec2Isabelle
  imports Complex_Main "HOL-Library.Char_ord" "HOL-Library.Multiset"
begin

section \<open>Exporter: values of the source store and of the archive\<close>

text \<open>
  A column value as the SQLite driver returns it: \<open>None\<close>, an integer or a text. (The
  archive's tables hold no REAL or BLOB column.)
\<close>

datatype sqlval = SNull | SInt int | SText string

text \<open>
  A JSON value. A Python \<open>dict\<close> keeps its keys in insertion order and is modelled as an
  association list; \<open>d[k] = v\<close> replaces the value of a key that is there and appends
  the key otherwise.
\<close>

datatype json = JNull | JBool bool | JInt int | JStr string | JList "json list"
  | JObj "(string \<times> json) list"

type_synonym pydict = "(string \<times> json) list"

fun dict_set :: "pydict \<Rightarrow> string \<Rightarrow> json \<Rightarrow> pydict" where
  "dict_set [] k v = [(k, v)]"
| "dict_set ((k', v') # d) k v = (if k' = k then (k, v) # d else (k', v') # dict_set d k v)"

definition dict_get :: "pydict \<Rightarrow> string \<Rightarrow> json option" where
  "dict_get d k = map_of d k"

definition dict_has :: "pydict \<Rightarrow> string \<Rightarrow> bool" where
  "dict_has d k = (k \<in> set (map fst d))"

fun json_of :: "sqlval \<Rightarrow> json" where
  "json_of SNull = JNull"
| "json_of (SInt i) = JInt i"
| "json_of (SText s) = JStr s"

text \<open>Python truthiness: \<open>None\<close>, \<open>0\<close> and the empty string are false.\<close>

fun truthy :: "sqlval \<Rightarrow> bool" where
  "truthy SNull = False"
| "truthy (SInt i) = (i \<noteq> 0)"
| "truthy (SText s) = (s \<noteq> [])"

text \<open>\<open>str(x)\<close>: the decimal digits of an integer, the text itself, \<open>None\<close> for \<open>None\<close>.\<close>

fun str_nat :: "nat \<Rightarrow> string" where
  "str_nat n = (if n < 10 then [char_of (48 + n)] else str_nat (n div 10) @ [char_of (48 + n mod 10)])"

declare str_nat.simps [simp del]

definition str_int :: "int \<Rightarrow> string" where
  "str_int i = (if i < 0 then CHR ''-'' # str_nat (nat (- i)) else str_nat (nat i))"

fun py_str :: "sqlval \<Rightarrow> string" where
  "py_str SNull = ''None''"
| "py_str (SInt i) = str_int i"
| "py_str (SText s) = s"

datatype py_error = AttributeError | ValueError

text \<open>
  The source store. The three metadata relations and the message relation are the rows
  their \<open>SELECT\<close> returns, in the order returned (for messages: \<open>ORDER BY timestamp\<close>);
  the five satellite relations are the rows the point query for a message id returns.
\<close>

record database =
  users_tbl :: "(sqlval \<times> sqlval \<times> sqlval \<times> sqlval) list"
  servers_tbl :: "(sqlval \<times> sqlval \<times> sqlval \<times> sqlval) list"
  channels_tbl :: "(sqlval \<times> sqlval \<times> sqlval) list"
  messages_tbl :: "(sqlval \<times> sqlval \<times> sqlval \<times> sqlval \<times> sqlval) list"
  attachments_rows :: "string \<Rightarrow> (sqlval \<times> sqlval \<times> sqlval \<times> sqlval) list"
  edit_timestamp_rows :: "string \<Rightarrow> sqlval list"
  embeds_rows :: "string \<Rightarrow> sqlval list"
  reactions_rows :: "string \<Rightarrow> (sqlval \<times> sqlval \<times> sqlval \<times> sqlval) list"
  replied_to_rows :: "string \<Rightarrow> sqlval list"

section \<open>Exporter: metadata (\<open>fetch_metadata\<close>)\<close>

text \<open>
  \<^verbatim>\<open>user_data = {"name": name, "avatar": avatar_url}
  if display_name:
      user_data["displayName"] = display_name
  metadata["users"][str(user_id)] = user_data\<close>
\<close>

fun user_data :: "sqlval \<times> sqlval \<times> sqlval \<times> sqlval \<Rightarrow> pydict" where
  "user_data (user_id, name, display_name, avatar_url) =
     (let d = [(''name'', json_of name), (''avatar'', json_of avatar_url)]
      in if truthy display_name then dict_set d ''displayName'' (json_of display_name) else d)"

definition fetch_users :: "database \<Rightarrow> pydict" where
  "fetch_users db =
     foldl (\<lambda>users row. dict_set users (py_str (fst row)) (JObj (user_data row))) [] (users_tbl db)"

text \<open>
  \<open>server_type.lower()\<close> raises on a value that is not a text; \<open>lower\<close> itself (Unicode
  lower-casing) is a parameter.
\<close>

fun server_data :: "(string \<Rightarrow> string) \<Rightarrow> sqlval \<times> sqlval \<times> sqlval \<times> sqlval \<Rightarrow> py_error + pydict" where
  "server_data lower (server_id, name, SText server_type, icon_hash) =
     (let d = [(''name'', json_of name), (''type'', JStr (lower server_type))]
      in Inr (if truthy icon_hash
              then dict_set d ''iconUrl''
                     (JStr (''https://cdn.discordapp.com/icons/'' @ py_str server_id @ ''/''
                            @ py_str icon_hash @ ''.webp''))
              else d))"
| "server_data lower (server_id, name, _, icon_hash) = Inl AttributeError"

fun fetch_servers :: "(string \<Rightarrow> string) \<Rightarrow> pydict \<Rightarrow> (sqlval \<times> sqlval \<times> sqlval \<times> sqlval) list \<Rightarrow> py_error + pydict" where
  "fetch_servers lower servers [] = Inr servers"
| "fetch_servers lower servers (row # rows) =
     (case server_data lower row of
        Inl err \<Rightarrow> Inl err
      | Inr d \<Rightarrow> fetch_servers lower (dict_set servers (py_str (fst row)) (JObj d)) rows)"

fun channel_data :: "sqlval \<times> sqlval \<times> sqlval \<Rightarrow> pydict" where
  "channel_data (channel_id, server_id, name) =
     [(''server'', JStr (py_str server_id)), (''name'', json_of name)]"

definition fetch_channels :: "database \<Rightarrow> pydict" where
  "fetch_channels db =
     foldl (\<lambda>channels row. dict_set channels (py_str (fst row)) (JObj (channel_data row))) []
       (channels_tbl db)"

definition fetch_metadata :: "(string \<Rightarrow> string) \<Rightarrow> database \<Rightarrow> py_error + pydict" where
  "fetch_metadata lower db =
     (let users = fetch_users db
      in case fetch_servers lower [] (servers_tbl db) of
           Inl err \<Rightarrow> Inl err
         | Inr servers \<Rightarrow>
             Inr [(''users'', JObj users), (''servers'', JObj servers),
                  (''channels'', JObj (fetch_channels db))])"

section \<open>Exporter: message documents (\<open>process_message\<close>)\<close>

fun attachment_of :: "sqlval \<times> sqlval \<times> sqlval \<times> sqlval \<Rightarrow> json" where
  "attachment_of (name, url, width, height) =
     (let attachment = [(''url'', json_of url), (''name'', json_of name)]
      in JObj (if truthy width \<and> truthy height
               then dict_set (dict_set attachment ''width'' (json_of width)) ''height'' (json_of height)
               else attachment))"

definition get_message_attachments :: "database \<Rightarrow> string \<Rightarrow> json list option" where
  "get_message_attachments db message_id =
     (let attachments = map attachment_of (attachments_rows db message_id)
      in if attachments \<noteq> [] then Some attachments else None)"

definition get_message_edit_timestamp :: "database \<Rightarrow> string \<Rightarrow> sqlval option" where
  "get_message_edit_timestamp db message_id =
     (case edit_timestamp_rows db message_id of [] \<Rightarrow> None | result # _ \<Rightarrow> Some result)"

definition get_message_embeds :: "database \<Rightarrow> string \<Rightarrow> json list option" where
  "get_message_embeds db message_id =
     (let embeds = map json_of (embeds_rows db message_id)
      in if embeds \<noteq> [] then Some embeds else None)"

fun reaction_of :: "sqlval \<times> sqlval \<times> sqlval \<times> sqlval \<Rightarrow> json" where
  "reaction_of (emoji_id, emoji_name, emoji_flags, emoji_count) =
     (let reaction = [(''n'', json_of emoji_name), (''a'', JBool (truthy emoji_flags)),
                      (''c'', json_of emoji_count)]
      in JObj (if truthy emoji_id then dict_set reaction ''id'' (JStr (py_str emoji_id))
               else reaction))"

definition get_message_reactions :: "database \<Rightarrow> string \<Rightarrow> json list option" where
  "get_message_reactions db message_id =
     (let reactions = map reaction_of (reactions_rows db message_id)
      in if reactions \<noteq> [] then Some reactions else None)"

definition get_message_reply :: "database \<Rightarrow> string \<Rightarrow> string option" where
  "get_message_reply db message_id =
     (case replied_to_rows db message_id of [] \<Rightarrow> None | result # _ \<Rightarrow> Some (py_str result))"

text \<open>
  \<^verbatim>\<open>if text: return True
  if attachments or embeds: return False
  return True\<close>
  An absent list and an empty list are both false.
\<close>

definition should_include_message_text :: "sqlval \<Rightarrow> json list option \<Rightarrow> json list option \<Rightarrow> bool" where
  "should_include_message_text text attachments embeds =
     (if truthy text then True
      else if (attachments \<noteq> None \<and> attachments \<noteq> Some [])
              \<or> (embeds \<noteq> None \<and> embeds \<noteq> Some []) then False
      else True)"

text \<open>
  The three shapes of \<open>if x: message_obj[k] = x\<close> in \<open>process_message\<close>: \<open>x\<close> an
  optional list (false when absent or empty), an optional column value, an optional
  string.
\<close>

definition set_if_list :: "pydict \<Rightarrow> string \<Rightarrow> json list option \<Rightarrow> pydict" where
  "set_if_list obj k xs =
     (case xs of Some (x # rest) \<Rightarrow> dict_set obj k (JList (x # rest)) | _ \<Rightarrow> obj)"

definition set_if_value :: "pydict \<Rightarrow> string \<Rightarrow> sqlval option \<Rightarrow> pydict" where
  "set_if_value obj k v =
     (case v of Some x \<Rightarrow> if truthy x then dict_set obj k (json_of x) else obj | None \<Rightarrow> obj)"

definition set_if_str :: "pydict \<Rightarrow> string \<Rightarrow> string option \<Rightarrow> pydict" where
  "set_if_str obj k v =
     (case v of Some x \<Rightarrow> if x \<noteq> [] then dict_set obj k (JStr x) else obj | None \<Rightarrow> obj)"

text \<open>
  One row of \<open>messages_with_progress\<close>: the five columns, then the rank and the total
  used only for the progress line. \<open>message_obj\<close> is the dictionary \<open>process_message\<close>
  builds; \<open>json.dumps\<close> is a parameter.
\<close>

type_synonym message_row = "sqlval \<times> sqlval \<times> sqlval \<times> sqlval \<times> sqlval \<times> nat \<times> nat"

fun message_obj :: "database \<Rightarrow> message_row \<Rightarrow> pydict" where
  "message_obj db (message_id, sender_id, channel_id, text, timestamp, idx, total_messages) =
     (let message_id_str = py_str message_id;
          attachments = get_message_attachments db message_id_str;
          embeds = get_message_embeds db message_id_str;
          edit_timestamp = get_message_edit_timestamp db message_id_str;
          reactions = get_message_reactions db message_id_str;
          reply_to = get_message_reply db message_id_str;
          obj0 = [(''id'', JStr message_id_str), (''c'', JStr (py_str channel_id)),
                  (''u'', JStr (py_str sender_id)), (''t'', json_of timestamp)];
          obj1 = (if should_include_message_text text attachments embeds
                  then dict_set obj0 ''m'' (if truthy text then json_of text else JStr [])
                  else obj0);
          obj2 = set_if_list obj1 ''a'' attachments;
          obj3 = set_if_list obj2 ''e'' embeds;
          obj4 = set_if_value obj3 ''te'' edit_timestamp;
          obj5 = set_if_list obj4 ''re'' reactions;
          obj6 = set_if_str obj5 ''r'' reply_to
      in obj6)"

definition process_message :: "(json \<Rightarrow> string) \<Rightarrow> database \<Rightarrow> message_row \<Rightarrow> string" where
  "process_message dumps db message_data = dumps (JObj (message_obj db message_data))"

section \<open>Exporter: the worker pool (\<open>generate_messages_ndjson\<close>)\<close>

text \<open>
  \<open>ThreadPoolExecutor(max_workers=n).map(fn, items)\<close> submits one work item per element,
  in order, each with its own future, and then yields the futures' results in the order
  of submission, waiting for a future that is not resolved yet. The workers take the
  items from the front of the queue and finish them in any order; the order is the
  schedule, a list of events naming the worker that acts. An event that does not apply
  (no such worker, a busy worker asked to start, an idle one asked to finish, an empty
  queue) changes nothing.
\<close>

datatype pool_event = Start nat | Finish nat

record ('a, 'r) pool =
  work_queue :: "(nat \<times> 'a) list"
  threads :: "(nat \<times> 'a) option list"
  futures :: "nat \<Rightarrow> 'r option"

definition submit_all :: "nat \<Rightarrow> 'a list \<Rightarrow> ('a, 'r) pool" where
  "submit_all max_workers items =
     \<lparr>work_queue = enumerate 0 items, threads = replicate max_workers None,
      futures = (\<lambda>_. None)\<rparr>"

fun pool_step :: "('a \<Rightarrow> 'r) \<Rightarrow> ('a, 'r) pool \<Rightarrow> pool_event \<Rightarrow> ('a, 'r) pool" where
  "pool_step fn st (Start w) =
     (if w < length (threads st)
      then (case (threads st ! w, work_queue st) of
              (None, item # rest) \<Rightarrow> st\<lparr>work_queue := rest, threads := (threads st)[w := Some item]\<rparr>
            | _ \<Rightarrow> st)
      else st)"
| "pool_step fn st (Finish w) =
     (if w < length (threads st)
      then (case threads st ! w of
              Some (i, x) \<Rightarrow> st\<lparr>threads := (threads st)[w := None],
                                futures := (futures st)(i \<mapsto> fn x)\<rparr>
            | None \<Rightarrow> st)
      else st)"

definition pool_run :: "('a \<Rightarrow> 'r) \<Rightarrow> nat \<Rightarrow> 'a list \<Rightarrow> pool_event list \<Rightarrow> ('a, 'r) pool" where
  "pool_run fn max_workers items sched = foldl (pool_step fn) (submit_all max_workers items) sched"

text \<open>The results yielded so far: those of the futures resolved, up to the first one that is not.\<close>

fun result_iterator :: "(nat \<Rightarrow> 'r option) \<Rightarrow> nat list \<Rightarrow> 'r list" where
  "result_iterator fs [] = []"
| "result_iterator fs (i # is) =
     (case fs i of None \<Rightarrow> [] | Some r \<Rightarrow> r # result_iterator fs is)"

text \<open>
  The pool has nothing left to do when the queue is empty and every worker is idle. Leaving
  the \<open>with\<close> block waits for that (\<open>shutdown(wait=True)\<close>), so the generator is
  exhausted, and its output complete, only then.
\<close>

definition pool_quiescent :: "('a, 'r) pool \<Rightarrow> bool" where
  "pool_quiescent st = (work_queue st = [] \<and> list_all (\<lambda>t. t = None) (threads st))"

text \<open>
  The constructor raises \<open>ValueError\<close> on \<open>max_workers <= 0\<close>. The result is \<open>None\<close>
  while the schedule has not brought the pool to rest: the generator has not returned.
\<close>

definition executor_map ::
  "('a \<Rightarrow> 'r) \<Rightarrow> int \<Rightarrow> 'a list \<Rightarrow> pool_event list \<Rightarrow> (py_error + 'r list) option" where
  "executor_map fn max_workers items sched =
     (if max_workers \<le> 0 then Some (Inl ValueError)
      else (let st = pool_run fn (nat max_workers) items sched
            in if pool_quiescent st
               then Some (Inr (result_iterator (futures st) [0..<length items]))
               else None))"

definition messages_with_progress :: "database \<Rightarrow> message_row list" where
  "messages_with_progress db =
     (let all_messages = messages_tbl db; total_messages = length all_messages
      in map (\<lambda>(idx, (a, b, c, d, e)). (a, b, c, d, e, idx, total_messages))
           (enumerate 0 all_messages))"

definition generate_messages_ndjson ::
  "(json \<Rightarrow> string) \<Rightarrow> database \<Rightarrow> int \<Rightarrow> pool_event list \<Rightarrow> (py_error + string list) option" where
  "generate_messages_ndjson dumps db num_threads sched =
     executor_map (process_message dumps db) num_threads (messages_with_progress db) sched"

text \<open>
  The records the generator has yielded when the schedule ends, whether or not the pool
  is at rest.
\<close>

definition yielded_so_far ::
  "(json \<Rightarrow> string) \<Rightarrow> database \<Rightarrow> int \<Rightarrow> pool_event list \<Rightarrow> string list" where
  "yielded_so_far dumps db num_threads sched =
     result_iterator
       (futures (pool_run (process_message dumps db) (nat num_threads)
                   (messages_with_progress db) sched))
       [0..<length (messages_with_progress db)]"

text \<open>
  Two schedules used to finish a run: every worker finishes what it holds; then worker 0
  takes and finishes an item, \<open>n\<close> times.
\<close>

definition sequential_schedule :: "nat \<Rightarrow> pool_event list" where
  "sequential_schedule n = concat (replicate n [Start 0, Finish 0])"

definition finishing_schedule :: "nat \<Rightarrow> nat \<Rightarrow> pool_event list" where
  "finishing_schedule max_workers n = map Finish [0..<max_workers] @ sequential_schedule n"

subsection \<open>An example store\<close>

text \<open>
  Three messages of one channel: a text, an empty text with one attachment, an empty
  text with nothing attached; two users, one without display name and avatar.
  \<open>id_dumps\<close> stands for a serializer in the examples: it prints the \<open>id\<close> field.
\<close>

definition example_db :: database where
  "example_db =
     \<lparr>users_tbl = [(SInt 7, SText ''ann'', SText ''Ann'', SText ''a1''),
                  (SInt 8, SText ''bob'', SNull, SNull)],
      servers_tbl = [], channels_tbl = [],
      messages_tbl = [(SInt 1, SInt 7, SInt 5, SText ''hi'', SInt 100),
                      (SInt 2, SInt 7, SInt 5, SText [], SInt 200),
                      (SInt 3, SInt 8, SInt 5, SText [], SInt 300)],
      attachments_rows = (\<lambda>message_id. if message_id = ''2''
          then [(SText ''pic.png'', SText ''http://x/pic.png'', SInt 10, SInt 20)] else []),
      edit_timestamp_rows = (\<lambda>_. []), embeds_rows = (\<lambda>_. []),
      reactions_rows = (\<lambda>_. []), replied_to_rows = (\<lambda>_. [])\<rparr>"

definition id_dumps :: "json \<Rightarrow> string" where
  "id_dumps j =
     (case j of
        JObj d \<Rightarrow> (case dict_get d ''id'' of Some (JStr s) \<Rightarrow> s | _ \<Rightarrow> [])
      | _ \<Rightarrow> [])"

lemma str_int_digits:
  "str_int 1 = ''1''" "str_int 2 = ''2''" "str_int 3 = ''3''" "str_int 7 = ''7''"
  "str_int 8 = ''8''"
  by code_simp+

subsection \<open>Dictionaries\<close>

lemma keys_dict_set:
  "map fst (dict_set d k v) = (if k \<in> set (map fst d) then map fst d else map fst d @ [k])"
  by (induction d) (auto, force)

lemma dict_has_set: "dict_has (dict_set d k v) k' \<longleftrightarrow> k' = k \<or> dict_has d k'"
  unfolding dict_has_def keys_dict_set by auto

lemma dict_get_set: "dict_get (dict_set d k v) k' = (if k' = k then Some v else dict_get d k')"
  unfolding dict_get_def by (induction d) auto

lemma dict_has_get: "dict_has d k \<longleftrightarrow> dict_get d k \<noteq> None"
  unfolding dict_has_def dict_get_def by (simp add: map_of_eq_None_iff)

lemma foldl_dict_set_other:
  "k \<notin> key ` set rows \<Longrightarrow>
   dict_get (foldl (\<lambda>d r. dict_set d (key r) (val r)) d0 rows) k = dict_get d0 k"
  by (induction rows arbitrary: d0) (auto simp: dict_get_set)

lemma foldl_dict_set_distinct:
  "distinct (map key rows) \<Longrightarrow> row \<in> set rows \<Longrightarrow>
   dict_get (foldl (\<lambda>d r. dict_set d (key r) (val r)) d0 rows) (key row) = Some (val row)"
proof (induction rows arbitrary: d0)
  case Nil
  then show ?case by simp
next
  case (Cons r rows)
  show ?case
  proof (cases "row = r")
    case True
    with Cons.prems have "key row \<notin> key ` set rows" by auto
    from foldl_dict_set_other[OF this] True show ?thesis by (simp add: dict_get_set)
  next
    case False
    with Cons show ?thesis by auto
  qed
qed

lemma dict_get_set_if_list:
  "k' \<noteq> k \<Longrightarrow> dict_get (set_if_list obj k xs) k' = dict_get obj k'"
  by (simp add: set_if_list_def dict_get_set split: option.split list.split)

lemma dict_get_set_if_value:
  "k' \<noteq> k \<Longrightarrow> dict_get (set_if_value obj k v) k' = dict_get obj k'"
  by (simp add: set_if_value_def dict_get_set split: option.split)

lemma dict_get_set_if_str:
  "k' \<noteq> k \<Longrightarrow> dict_get (set_if_str obj k v) k' = dict_get obj k'"
  by (simp add: set_if_str_def dict_get_set split: option.split)

lemma should_include_rows:
  "should_include_message_text text (get_message_attachments db mid) (get_message_embeds db mid)
   \<longleftrightarrow> truthy text \<or> (attachments_rows db mid = [] \<and> embeds_rows db mid = [])"
  by (simp add: should_include_message_text_def get_message_attachments_def
      get_message_embeds_def Let_def)

lemma dict_get_message_obj_m:
  "dict_get (message_obj db
      (message_id, sender_id, channel_id, text, timestamp, idx, total_messages)) ''m''
   = (if should_include_message_text text (get_message_attachments db (py_str message_id))
            (get_message_embeds db (py_str message_id))
      then Some (if truthy text then json_of text else JStr []) else None)"
  by (simp add: Let_def dict_get_set dict_get_set_if_list dict_get_set_if_value
      dict_get_set_if_str)
    (simp add: dict_get_def)

subsection \<open>The worker pool keeps the order of submission\<close>

text \<open>
  The invariant of every pool state: the queue is a suffix of the submitted items, a busy
  worker holds an item under its own index, a resolved future holds the result of the
  item of its index, and every submitted index is in the queue, with a worker, or
  resolved.
\<close>

definition pool_inv :: "('a \<Rightarrow> 'r) \<Rightarrow> 'a list \<Rightarrow> ('a, 'r) pool \<Rightarrow> bool" where
  "pool_inv fn items st \<longleftrightarrow>
     (\<exists>k. work_queue st = drop k (enumerate 0 items))
     \<and> (\<forall>w i x. w < length (threads st) \<longrightarrow> threads st ! w = Some (i, x)
            \<longrightarrow> i < length items \<and> x = items ! i)
     \<and> (\<forall>i r. futures st i = Some r \<longrightarrow> i < length items \<and> r = fn (items ! i))
     \<and> (\<forall>i < length items.
            i \<in> fst ` set (work_queue st)
            \<or> (\<exists>w < length (threads st). \<exists>x. threads st ! w = Some (i, x))
            \<or> futures st i \<noteq> None)"

lemma pool_inv_init: "pool_inv fn items (submit_all n items)"
proof -
  have "set (map fst (enumerate 0 items)) = {0..<length items}" by simp
  then have "fst ` set (enumerate 0 items) = {0..<length items}" by (simp only: set_map)
  then show ?thesis
    unfolding pool_inv_def submit_all_def by (auto intro: exI[of _ 0])
qed

lemma drop_enumerate_Cons:
  assumes "drop k (enumerate 0 items) = item # rest"
  shows "k < length items \<and> item = (k, items ! k) \<and> rest = drop (Suc k) (enumerate 0 items)"
proof -
  have k: "k < length items" using assms by (cases "k < length items") auto
  then have "drop k (enumerate 0 items) = enumerate 0 items ! k # drop (Suc k) (enumerate 0 items)"
    by (simp add: Cons_nth_drop_Suc)
  with assms k show ?thesis by (simp add: nth_enumerate_eq)
qed

lemma pool_inv_start:
  assumes inv: "pool_inv fn items st"
    and w: "w < length (threads st)" "threads st ! w = None"
    and q: "work_queue st = item # rest"
  shows "pool_inv fn items (st\<lparr>work_queue := rest, threads := (threads st)[w := Some item]\<rparr>)"
proof -
  from inv obtain k where k: "work_queue st = drop k (enumerate 0 items)"
    unfolding pool_inv_def by blast
  from drop_enumerate_Cons[of k items item rest] k q
  have kk: "k < length items" "item = (k, items ! k)" "rest = drop (Suc k) (enumerate 0 items)"
    by auto
  let ?st' = "st\<lparr>work_queue := rest, threads := (threads st)[w := Some item]\<rparr>"
  have a: "\<exists>k. work_queue ?st' = drop k (enumerate 0 items)" using kk(3) by auto
  have b: "\<forall>w' i x. w' < length (threads ?st') \<longrightarrow> threads ?st' ! w' = Some (i, x)
            \<longrightarrow> i < length items \<and> x = items ! i"
    using inv kk w unfolding pool_inv_def by (auto simp: nth_list_update split: if_splits)
  have c: "\<forall>i r. futures ?st' i = Some r \<longrightarrow> i < length items \<and> r = fn (items ! i)"
    using inv unfolding pool_inv_def by simp
  have d: "i \<in> fst ` set (work_queue ?st')
            \<or> (\<exists>w' < length (threads ?st'). \<exists>x. threads ?st' ! w' = Some (i, x))
            \<or> futures ?st' i \<noteq> None" if i: "i < length items" for i
  proof -
    from inv i have old: "i \<in> fst ` set (work_queue st)
            \<or> (\<exists>w' < length (threads st). \<exists>x. threads st ! w' = Some (i, x))
            \<or> futures st i \<noteq> None" unfolding pool_inv_def by blast
    then show ?thesis
    proof (elim disjE)
      assume "i \<in> fst ` set (work_queue st)"
      then have "i = k \<or> i \<in> fst ` set rest" using q kk(2) by auto
      then show ?thesis
      proof
        assume "i = k"
        then have "threads ?st' ! w = Some (i, items ! k)" using w kk(2) by simp
        then show ?thesis using w by auto
      next
        assume "i \<in> fst ` set rest" then show ?thesis by simp
      qed
    next
      assume "\<exists>w' < length (threads st). \<exists>x. threads st ! w' = Some (i, x)"
      then obtain w' x where w': "w' < length (threads st)" "threads st ! w' = Some (i, x)" by blast
      then have "w' \<noteq> w" using w by auto
      then have "threads ?st' ! w' = Some (i, x)" using w' by simp
      then show ?thesis using w' by auto
    next
      assume "futures st i \<noteq> None" then show ?thesis by simp
    qed
  qed
  from a b c d show ?thesis unfolding pool_inv_def by blast
qed

lemma pool_inv_finish:
  assumes inv: "pool_inv fn items st"
    and w: "w < length (threads st)" "threads st ! w = Some (j, y)"
  shows "pool_inv fn items (st\<lparr>threads := (threads st)[w := None],
                                futures := (futures st)(j \<mapsto> fn y)\<rparr>)"
proof -
  let ?st' = "st\<lparr>threads := (threads st)[w := None], futures := (futures st)(j \<mapsto> fn y)\<rparr>"
  from inv w have jy: "j < length items" "y = items ! j" unfolding pool_inv_def by blast+
  have a: "\<exists>k. work_queue ?st' = drop k (enumerate 0 items)"
    using inv unfolding pool_inv_def by simp
  have b: "\<forall>w' i x. w' < length (threads ?st') \<longrightarrow> threads ?st' ! w' = Some (i, x)
            \<longrightarrow> i < length items \<and> x = items ! i"
    using inv w unfolding pool_inv_def by (auto simp: nth_list_update split: if_splits)
  have c: "\<forall>i r. futures ?st' i = Some r \<longrightarrow> i < length items \<and> r = fn (items ! i)"
    using inv jy unfolding pool_inv_def by (auto split: if_splits)
  have d: "i \<in> fst ` set (work_queue ?st')
            \<or> (\<exists>w' < length (threads ?st'). \<exists>x. threads ?st' ! w' = Some (i, x))
            \<or> futures ?st' i \<noteq> None" if i: "i < length items" for i
  proof -
    from inv i have old: "i \<in> fst ` set (work_queue st)
            \<or> (\<exists>w' < length (threads st). \<exists>x. threads st ! w' = Some (i, x))
            \<or> futures st i \<noteq> None" unfolding pool_inv_def by blast
    then show ?thesis
    proof (elim disjE)
      assume "i \<in> fst ` set (work_queue st)" then show ?thesis by simp
    next
      assume "\<exists>w' < length (threads st). \<exists>x. threads st ! w' = Some (i, x)"
      then obtain w' x where w': "w' < length (threads st)" "threads st ! w' = Some (i, x)" by blast
      show ?thesis
      proof (cases "w' = w")
        case True
        then have "i = j" using w w' by simp
        then show ?thesis by simp
      next
        case False
        then have "threads ?st' ! w' = Some (i, x)" using w' by simp
        then show ?thesis using w' by auto
      qed
    next
      assume "futures st i \<noteq> None" then show ?thesis by simp
    qed
  qed
  from a b c d show ?thesis unfolding pool_inv_def by blast
qed

lemma pool_inv_step: "pool_inv fn items st \<Longrightarrow> pool_inv fn items (pool_step fn st ev)"
proof (cases ev)
  case (Start w)
  assume inv: "pool_inv fn items st"
  show ?thesis
  proof (cases "w < length (threads st) \<and> threads st ! w = None \<and> work_queue st \<noteq> []")
    case False
    then have "pool_step fn st ev = st"
      using Start by (auto split: option.splits list.splits)
    with inv show ?thesis by simp
  next
    case True
    then obtain item rest where q: "work_queue st = item # rest" by (cases "work_queue st") auto
    have "pool_step fn st ev = st\<lparr>work_queue := rest, threads := (threads st)[w := Some item]\<rparr>"
      using True Start q by simp
    with pool_inv_start[OF inv _ _ q, of w] True show ?thesis by simp
  qed
next
  case (Finish w)
  assume inv: "pool_inv fn items st"
  show ?thesis
  proof (cases "w < length (threads st) \<and> threads st ! w \<noteq> None")
    case False
    then have "pool_step fn st ev = st"
      using Finish by (auto split: option.splits)
    with inv show ?thesis by simp
  next
    case True
    then obtain i x where ix: "threads st ! w = Some (i, x)" by auto
    have "pool_step fn st ev = st\<lparr>threads := (threads st)[w := None], futures := (futures st)(i \<mapsto> fn x)\<rparr>"
      using True Finish ix by simp
    with pool_inv_finish[OF inv _ ix] True show ?thesis by simp
  qed
qed

lemma pool_inv_foldl: "pool_inv fn items st \<Longrightarrow> pool_inv fn items (foldl (pool_step fn) st sched)"
  by (induction sched arbitrary: st) (auto intro: pool_inv_step)

lemma pool_inv_run: "pool_inv fn items (pool_run fn n items sched)"
  unfolding pool_run_def by (rule pool_inv_foldl[OF pool_inv_init])

lemma quiescent_resolves_all:
  assumes inv: "pool_inv fn items st" and q: "pool_quiescent st" and i: "i < length items"
  shows "futures st i = Some (fn (items ! i))"
proof -
  from q have e: "work_queue st = []" and idle: "\<forall>w < length (threads st). threads st ! w = None"
    unfolding pool_quiescent_def by (auto simp: list_all_length)
  from inv i have "i \<in> fst ` set (work_queue st)
            \<or> (\<exists>w < length (threads st). \<exists>x. threads st ! w = Some (i, x))
            \<or> futures st i \<noteq> None" unfolding pool_inv_def by blast
  with e idle have "futures st i \<noteq> None" by auto
  then obtain r where r: "futures st i = Some r" by auto
  with inv have "r = fn (items ! i)" unfolding pool_inv_def by blast
  with r show ?thesis by simp
qed

lemma result_iterator_prefix:
  assumes "\<forall>i r. fs i = Some r \<longrightarrow> r = g i"
  shows "\<exists>m. result_iterator fs is = map g (take m is)"
proof (induction "is")
  case Nil
  then show ?case by simp
next
  case (Cons i "is")
  then obtain m where m: "result_iterator fs is = map g (take m is)" by blast
  show ?case
  proof (cases "fs i")
    case None
    then have "result_iterator fs (i # is) = map g (take 0 (i # is))" by simp
    then show ?thesis by blast
  next
    case (Some r)
    with assms have "r = g i" by blast
    with Some m have "result_iterator fs (i # is) = map g (take (Suc m) (i # is))" by simp
    then show ?thesis by blast
  qed
qed

lemma result_iterator_all:
  assumes "\<forall>i\<in>set is. fs i = Some (g i)"
  shows "result_iterator fs is = map g is"
  using assms by (induction "is") auto

lemma map_nth_upt: "map (\<lambda>i. fn (items ! i)) [0..<length items] = map fn items"
  by (rule nth_equalityI) simp_all

lemma pool_run_prefix:
  "\<exists>m. result_iterator (futures (pool_run fn n items sched)) [0..<length items]
       = take m (map fn items)"
proof -
  have "\<forall>i r. futures (pool_run fn n items sched) i = Some r \<longrightarrow> r = fn (items ! i)"
    using pool_inv_run[of fn items n sched] unfolding pool_inv_def by blast
  from result_iterator_prefix[OF this, of "[0..<length items]"]
  obtain m where "result_iterator (futures (pool_run fn n items sched)) [0..<length items]
      = map (\<lambda>i. fn (items ! i)) (take m [0..<length items])" by blast
  also have "\<dots> = take m (map (\<lambda>i. fn (items ! i)) [0..<length items])"
    by (rule take_map[symmetric])
  also have "\<dots> = take m (map fn items)"
    by (simp only: map_nth_upt)
  finally show ?thesis by blast
qed

lemma pool_run_quiescent:
  assumes "pool_quiescent (pool_run fn n items sched)"
  shows "result_iterator (futures (pool_run fn n items sched)) [0..<length items] = map fn items"
proof -
  have "\<forall>i\<in>set [0..<length items].
          futures (pool_run fn n items sched) i = Some (fn (items ! i))"
    using quiescent_resolves_all[OF pool_inv_run assms] by simp
  from result_iterator_all[OF this] show ?thesis by (simp only: map_nth_upt)
qed

subsection \<open>The pool comes to rest\<close>

declare pool_step.simps [simp del]

lemma finish_step:
  "work_queue (pool_step fn st (Finish w)) = work_queue st
   \<and> length (threads (pool_step fn st (Finish w))) = length (threads st)
   \<and> (\<forall>v < length (threads st).
        v = w \<or> threads st ! v = None \<longrightarrow> threads (pool_step fn st (Finish w)) ! v = None)"
  by (auto simp: pool_step.simps nth_list_update split: option.splits)

lemma finish_all:
  "work_queue (foldl (pool_step fn) st (map Finish ws)) = work_queue st
   \<and> length (threads (foldl (pool_step fn) st (map Finish ws))) = length (threads st)
   \<and> (\<forall>v < length (threads st).
        v \<in> set ws \<or> threads st ! v = None
        \<longrightarrow> threads (foldl (pool_step fn) st (map Finish ws)) ! v = None)"
proof (induction ws arbitrary: st)
  case Nil
  then show ?case by simp
next
  case (Cons w ws)
  define st1 where "st1 = pool_step fn st (Finish w)"
  have s: "work_queue st1 = work_queue st" "length (threads st1) = length (threads st)"
    "\<forall>v < length (threads st). v = w \<or> threads st ! v = None \<longrightarrow> threads st1 ! v = None"
    using finish_step[of fn st w] by (simp_all add: st1_def)
  define st2 where "st2 = foldl (pool_step fn) st1 (map Finish ws)"
  have ih: "work_queue st2 = work_queue st1" "length (threads st2) = length (threads st1)"
    "\<forall>v < length (threads st1). v \<in> set ws \<or> threads st1 ! v = None \<longrightarrow> threads st2 ! v = None"
    using Cons.IH[of st1] by (simp_all add: st2_def)
  have e: "foldl (pool_step fn) st (map Finish (w # ws)) = st2"
    unfolding st2_def st1_def by simp
  have "\<forall>v < length (threads st). v \<in> set (w # ws) \<or> threads st ! v = None
        \<longrightarrow> threads st2 ! v = None"
  proof (intro allI impI)
    fix v assume v: "v < length (threads st)" and c: "v \<in> set (w # ws) \<or> threads st ! v = None"
    from c have "v \<in> set ws \<or> threads st1 ! v = None" using s(3) v by auto
    with ih(3) v s(2) show "threads st2 ! v = None" by auto
  qed
  with s ih show ?case unfolding e by simp
qed

lemma all_idle_after_finishing:
  "list_all (\<lambda>t. t = None) (threads (foldl (pool_step fn) st (map Finish [0..<length (threads st)])))"
  using finish_all[of fn st "[0..<length (threads st)]"] by (simp add: list_all_length)

lemma sequential_round_idle:
  assumes "list_all (\<lambda>t. t = None) (threads st)" "0 < length (threads st)"
  shows "work_queue (foldl (pool_step fn) st [Start 0, Finish 0]) = tl (work_queue st)
       \<and> threads (foldl (pool_step fn) st [Start 0, Finish 0]) = threads st"
proof -
  have t0: "threads st ! 0 = None" using assms by (simp add: list_all_length)
  show ?thesis
  proof (cases "work_queue st")
    case Nil
    then show ?thesis using t0 assms(2) by (simp add: pool_step.simps)
  next
    case (Cons item rest)
    obtain i x where ix: "item = (i, x)" by (cases item)
    have a: "pool_step fn st (Start 0) = st\<lparr>work_queue := rest, threads := (threads st)[0 := Some item]\<rparr>"
      using t0 assms(2) Cons by (simp add: pool_step.simps)
    have b: "pool_step fn (st\<lparr>work_queue := rest, threads := (threads st)[0 := Some item]\<rparr>) (Finish 0)
        = st\<lparr>work_queue := rest, threads := (threads st)[0 := Some item, 0 := None],
             futures := (futures st)(i \<mapsto> fn x)\<rparr>"
      using assms(2) ix by (simp add: pool_step.simps)
    have c: "(threads st)[0 := None] = threads st"
      using t0 assms(2) by (simp add: list_update_same_conv)
    have "foldl (pool_step fn) st [Start 0, Finish 0]
          = st\<lparr>work_queue := rest, threads := (threads st)[0 := Some item, 0 := None],
               futures := (futures st)(i \<mapsto> fn x)\<rparr>"
      by (simp only: foldl.simps a b)
    then show ?thesis using Cons c by simp
  qed
qed

lemma sequential_schedule_drains:
  assumes "list_all (\<lambda>t. t = None) (threads st)" "0 < length (threads st)"
  shows "work_queue (foldl (pool_step fn) st (sequential_schedule k)) = drop k (work_queue st)
       \<and> threads (foldl (pool_step fn) st (sequential_schedule k)) = threads st"
  using assms
proof (induction k arbitrary: st)
  case 0
  then show ?case by (simp add: sequential_schedule_def)
next
  case (Suc k)
  define st1 where "st1 = foldl (pool_step fn) st [Start 0, Finish 0]"
  have r: "work_queue st1 = tl (work_queue st)" "threads st1 = threads st"
    using sequential_round_idle[OF Suc.prems, of fn] by (simp_all add: st1_def)
  have s: "foldl (pool_step fn) st (sequential_schedule (Suc k))
           = foldl (pool_step fn) st1 (sequential_schedule k)"
    unfolding st1_def by (simp add: sequential_schedule_def)
  have p: "list_all (\<lambda>t. t = None) (threads st1)" "0 < length (threads st1)"
    using r(2) Suc.prems by simp_all
  from Suc.IH[OF p] r show ?case unfolding s by (simp add: drop_Suc)
qed

lemma finishing_schedule_quiescent:
  assumes n: "0 < length (threads st)" and k: "length (work_queue st) \<le> k"
  shows "pool_quiescent (foldl (pool_step fn) st (finishing_schedule (length (threads st)) k))"
proof -
  define st1 where "st1 = foldl (pool_step fn) st (map Finish [0..<length (threads st)])"
  have idle: "list_all (\<lambda>t. t = None) (threads st1)"
    unfolding st1_def by (rule all_idle_after_finishing)
  have q: "work_queue st1 = work_queue st" and l: "length (threads st1) = length (threads st)"
    using finish_all[of fn st "[0..<length (threads st)]"] by (simp_all add: st1_def)
  have n1: "0 < length (threads st1)" using n l by simp
  define st2 where "st2 = foldl (pool_step fn) st1 (sequential_schedule k)"
  have d: "work_queue st2 = drop k (work_queue st1)" "threads st2 = threads st1"
    using sequential_schedule_drains[OF idle n1, of fn k] by (simp_all add: st2_def)
  have e: "foldl (pool_step fn) st (finishing_schedule (length (threads st)) k) = st2"
    unfolding finishing_schedule_def foldl_append st2_def st1_def ..
  show ?thesis unfolding e pool_quiescent_def using d idle q k by simp
qed

lemma pool_run_threads: "length (threads (pool_run fn n items sched)) = n"
proof -
  have "length (threads (foldl (pool_step fn) st sched)) = length (threads st)" for st :: "('a, 'b) pool"
  proof (induction sched arbitrary: st)
    case Nil then show ?case by simp
  next
    case (Cons ev sched)
    have "length (threads (pool_step fn st ev)) = length (threads st)"
      by (cases ev) (auto simp: pool_step.simps split: option.splits list.splits)
    with Cons show ?case by simp
  qed
  then show ?thesis by (simp add: pool_run_def submit_all_def)
qed

lemma pool_run_queue_length: "length (work_queue (pool_run fn n items sched)) \<le> length items"
proof -
  obtain k where "work_queue (pool_run fn n items sched) = drop k (enumerate 0 items)"
    using pool_inv_run[of fn items n sched] unfolding pool_inv_def by blast
  then show ?thesis by simp
qed

lemma pool_run_append:
  "pool_run fn n items (sched @ sched') = foldl (pool_step fn) (pool_run fn n items sched) sched'"
  by (simp add: pool_run_def)

lemma pool_run_can_finish:
  assumes "0 < n"
  shows "pool_quiescent (pool_run fn n items (sched @ finishing_schedule n (length items)))"
proof -
  let ?st = "pool_run fn n items sched"
  have "pool_quiescent (foldl (pool_step fn) ?st (finishing_schedule (length (threads ?st)) (length items)))"
    by (rule finishing_schedule_quiescent) (use assms pool_run_threads[of fn n items sched] pool_run_queue_length[of fn n items sched] in simp_all)
  then show ?thesis by (simp add: pool_run_append pool_run_threads)
qed

subsection \<open>The exporter claims\<close>

text \<open>
  C1. For a worker count of at least 1 and every schedule of the workers,
  \<open>generate_messages_ndjson\<close> returns exactly when the pool has come to rest, and what
  it returns is the sequential map of \<open>process_message\<close> over the rows: one record per
  row, the record at position \<open>i\<close> being the document of row \<open>i\<close> (which does not
  depend on the rank and the total passed for the progress line). Every run, however far
  and with whichever workers it has got, comes to rest when each worker finishes what it
  holds and the queue is worked off. Two runs that return, with any two worker counts and
  schedules, return the same stream. Before the end, the records yielded are a prefix of
  that stream.
\<close>

theorem generate_messages_ndjson_keeps_input_order:
  assumes "1 \<le> num_threads" and "1 \<le> num_threads'"
  shows "generate_messages_ndjson dumps db num_threads sched
           = (if pool_quiescent (pool_run (process_message dumps db) (nat num_threads)
                                   (messages_with_progress db) sched)
              then Some (Inr (map (process_message dumps db) (messages_with_progress db)))
              else None)
    \<and> generate_messages_ndjson dumps db num_threads
          (sched @ finishing_schedule (nat num_threads) (length (messages_tbl db)))
        = Some (Inr (map (process_message dumps db) (messages_with_progress db)))
    \<and> (generate_messages_ndjson dumps db num_threads sched = Some r
        \<and> generate_messages_ndjson dumps db num_threads' sched' = Some r' \<longrightarrow> r = r')
    \<and> (\<exists>m. yielded_so_far dumps db num_threads sched
             = take m (map (process_message dumps db) (messages_with_progress db)))
    \<and> (generate_messages_ndjson dumps db num_threads sched = Some (Inr out)
        \<longrightarrow> length out = length (messages_tbl db)
            \<and> (\<forall>i < length (messages_tbl db).
                  out ! i = dumps (JObj (message_obj db
                    (case messages_tbl db ! i of (a, b, c, d, e) \<Rightarrow> (a, b, c, d, e, 0, 0))))))"
proof -
  let ?pm = "process_message dumps db"
  let ?rows = "messages_with_progress db"
  have len: "length ?rows = length (messages_tbl db)"
    by (simp add: messages_with_progress_def Let_def)
  have n: "\<not> num_threads \<le> 0" "\<not> num_threads' \<le> 0" "0 < nat num_threads"
    using assms by simp_all
  have p1: "generate_messages_ndjson dumps db k s
           = (if pool_quiescent (pool_run ?pm (nat k) ?rows s) then Some (Inr (map ?pm ?rows)) else None)"
    if "\<not> k \<le> 0" for k s
    using pool_run_quiescent[of ?pm "nat k" ?rows s] that
    by (simp add: generate_messages_ndjson_def executor_map_def Let_def)
  have p2: "generate_messages_ndjson dumps db num_threads
          (sched @ finishing_schedule (nat num_threads) (length (messages_tbl db)))
        = Some (Inr (map ?pm ?rows))"
    using pool_run_can_finish[OF n(3), of ?pm ?rows sched] p1[OF n(1)] len by simp
  have p3: "r = r'" if "generate_messages_ndjson dumps db num_threads sched = Some r"
      "generate_messages_ndjson dumps db num_threads' sched' = Some r'"
    using that p1[OF n(1), of sched] p1[OF n(2), of sched'] by (auto split: if_splits)
  have p4: "\<exists>m. yielded_so_far dumps db num_threads sched = take m (map ?pm ?rows)"
    using pool_run_prefix[of ?pm "nat num_threads" ?rows sched]
    by (simp add: yielded_so_far_def)
  have p6: "\<forall>i < length (messages_tbl db). map ?pm ?rows ! i
          = dumps (JObj (message_obj db
              (case messages_tbl db ! i of (a, b, c, d, e) \<Rightarrow> (a, b, c, d, e, 0, 0))))"
  proof (intro allI impI)
    fix i assume i: "i < length (messages_tbl db)"
    obtain a b c d e where r: "messages_tbl db ! i = (a, b, c, d, e)"
      by (metis prod_cases5)
    have "?rows ! i = (a, b, c, d, e, i, length (messages_tbl db))"
      using i r by (simp add: messages_with_progress_def Let_def nth_enumerate_eq)
    then show "map ?pm ?rows ! i = dumps (JObj (message_obj db
        (case messages_tbl db ! i of (a, b, c, d, e) \<Rightarrow> (a, b, c, d, e, 0, 0))))"
      using i len r by (simp add: process_message_def Let_def)
  qed
  have p5: "length out = length (messages_tbl db)
            \<and> (\<forall>i < length (messages_tbl db).
                  out ! i = dumps (JObj (message_obj db
                    (case messages_tbl db ! i of (a, b, c, d, e) \<Rightarrow> (a, b, c, d, e, 0, 0)))))"
    if "generate_messages_ndjson dumps db num_threads sched = Some (Inr out)"
  proof -
    from that p1[OF n(1), of sched] have "out = map ?pm ?rows" by (auto split: if_splits)
    with len p6 show ?thesis by simp
  qed
  from p1[OF n(1), of sched] p2 p3 p4 p5 show ?thesis by blast
qed

theorem generate_messages_ndjson_keeps_input_order_witness:
  "(1::int) \<le> 2 \<and> (1::int) \<le> 1
   \<and> generate_messages_ndjson id_dumps example_db 2
        [Start 0, Start 1, Finish 1, Start 1, Finish 1, Finish 0] = Some (Inr [''1'', ''2'', ''3''])
   \<and> generate_messages_ndjson id_dumps example_db 1
        [Start 0, Finish 0, Start 0, Finish 0, Start 0, Finish 0] = Some (Inr [''1'', ''2'', ''3''])
   \<and> generate_messages_ndjson id_dumps example_db 2 [Start 0, Start 1, Finish 1] = None
   \<and> generate_messages_ndjson id_dumps example_db 2
        ([Start 0, Start 1, Finish 1] @ finishing_schedule (nat 2) (length (messages_tbl example_db)))
        = Some (Inr [''1'', ''2'', ''3''])
   \<and> length [''1'', ''2'', ''3''] = length (messages_tbl example_db)"
proof -
  let ?s2 = "[Start 0, Start 1, Finish 1, Start 1, Finish 1, Finish 0]"
  let ?s1 = "[Start 0, Finish 0, Start 0, Finish 0, Start 0, Finish 0]"
  let ?s3 = "[Start 0, Start 1, Finish 1]"
  have h1: "(1::int) \<le> 2" and h2: "(1::int) \<le> 1" by simp_all
  have rows: "messages_with_progress example_db =
      [(SInt 1, SInt 7, SInt 5, SText ''hi'', SInt 100, 0, 3),
       (SInt 2, SInt 7, SInt 5, SText [], SInt 200, 1, 3),
       (SInt 3, SInt 8, SInt 5, SText [], SInt 300, 2, 3)]"
    by (simp add: messages_with_progress_def example_db_def enumerate_eq_zip upt_rec)
  have a1: "pool_quiescent (pool_run (process_message id_dumps example_db) (nat 2)
        (messages_with_progress example_db) ?s2)"
    unfolding rows
    by (simp add: pool_quiescent_def pool_run_def submit_all_def pool_step.simps eval_nat_numeral)
  have a2: "pool_quiescent (pool_run (process_message id_dumps example_db) (nat 1)
        (messages_with_progress example_db) ?s1)"
    unfolding rows
    by (simp add: pool_quiescent_def pool_run_def submit_all_def pool_step.simps eval_nat_numeral)
  have a3: "\<not> pool_quiescent (pool_run (process_message id_dumps example_db) (nat 2)
        (messages_with_progress example_db) ?s3)"
    unfolding rows
    by (simp add: pool_quiescent_def pool_run_def submit_all_def pool_step.simps eval_nat_numeral)
  have m: "map (process_message id_dumps example_db) (messages_with_progress example_db)
           = [''1'', ''2'', ''3'']"
    unfolding rows
    by (simp add: str_int_digits process_message_def id_dumps_def Let_def example_db_def
        dict_get_def get_message_attachments_def get_message_embeds_def
        get_message_edit_timestamp_def get_message_reactions_def get_message_reply_def
        should_include_message_text_def set_if_list_def set_if_value_def set_if_str_def)
  note t2 = generate_messages_ndjson_keeps_input_order[OF h1 h2, of id_dumps example_db ?s2 "Inr [''1'', ''2'', ''3'']" ?s1
      "Inr [''1'', ''2'', ''3'']" "[''1'', ''2'', ''3'']"]
  note t1 = generate_messages_ndjson_keeps_input_order[OF h2 h1, of id_dumps example_db ?s1 "Inr [''1'', ''2'', ''3'']" ?s2
      "Inr [''1'', ''2'', ''3'']" "[''1'', ''2'', ''3'']"]
  note t3 = generate_messages_ndjson_keeps_input_order[OF h1 h2, of id_dumps example_db ?s3 "Inr [''1'', ''2'', ''3'']" ?s1
      "Inr [''1'', ''2'', ''3'']" "[''1'', ''2'', ''3'']"]
  have g2: "generate_messages_ndjson id_dumps example_db 2 ?s2 = Some (Inr [''1'', ''2'', ''3''])"
    using t2[THEN conjunct1] a1 unfolding m by simp
  have g1: "generate_messages_ndjson id_dumps example_db 1 ?s1 = Some (Inr [''1'', ''2'', ''3''])"
    using t1[THEN conjunct1] a2 unfolding m by simp
  have g3: "generate_messages_ndjson id_dumps example_db 2 ?s3 = None"
    using t3[THEN conjunct1] a3 by simp
  have g4: "generate_messages_ndjson id_dumps example_db 2
        (?s3 @ finishing_schedule (nat 2) (length (messages_tbl example_db)))
        = Some (Inr [''1'', ''2'', ''3''])"
    using t3[THEN conjunct2, THEN conjunct1] unfolding m .
  have l: "length [''1'', ''2'', ''3''] = length (messages_tbl example_db)"
    by (simp add: example_db_def)
  from h1 h2 g2 g1 g3 g4 l show ?thesis by blast
qed

text \<open>
  C2. The document of a message row has no field \<open>m\<close> exactly when the text is empty
  (an empty string, or absent) and the message has at least one attachment or embed row;
  in every other case \<open>m\<close> is there and holds the text, or the empty string when the
  text is empty or absent.
\<close>

theorem message_text_field_omission:
  "(dict_has (message_obj db
       (message_id, sender_id, channel_id, text, timestamp, idx, total_messages)) ''m''
      \<longleftrightarrow> truthy text
          \<or> (attachments_rows db (py_str message_id) = []
              \<and> embeds_rows db (py_str message_id) = []))
   \<and> dict_get (message_obj db
       (message_id, sender_id, channel_id, text, timestamp, idx, total_messages)) ''m''
      = (if truthy text then Some (json_of text)
         else if attachments_rows db (py_str message_id) = []
                 \<and> embeds_rows db (py_str message_id) = [] then Some (JStr [])
         else None)"
  unfolding dict_has_get dict_get_message_obj_m should_include_rows by auto

theorem message_text_field_omission_witness:
  "\<not> truthy (SText []) \<and> attachments_rows example_db (py_str (SInt 2)) \<noteq> []
   \<and> \<not> dict_has (message_obj example_db (SInt 2, SInt 7, SInt 5, SText [], SInt 200, 1, 3)) ''m''
   \<and> attachments_rows example_db (py_str (SInt 3)) = []
   \<and> embeds_rows example_db (py_str (SInt 3)) = []
   \<and> dict_get (message_obj example_db (SInt 3, SInt 8, SInt 5, SText [], SInt 300, 2, 3)) ''m''
       = Some (JStr [])
   \<and> truthy (SText ''hi'')
   \<and> dict_get (message_obj example_db (SInt 1, SInt 7, SInt 5, SText ''hi'', SInt 100, 0, 3)) ''m''
       = Some (JStr ''hi'')"
proof -
  have h: "\<not> truthy (SText [])" "attachments_rows example_db (py_str (SInt 2)) \<noteq> []"
    "attachments_rows example_db (py_str (SInt 3)) = []"
    "embeds_rows example_db (py_str (SInt 3)) = []"
    "embeds_rows example_db (py_str (SInt 1)) = []"
    "attachments_rows example_db (py_str (SInt 1)) = []"
    "truthy (SText ''hi'')"
    by (simp_all add: example_db_def str_int_digits)
  have w2: "\<not> dict_has (message_obj example_db
      (SInt 2, SInt 7, SInt 5, SText [], SInt 200, 1, 3)) ''m''"
    using message_text_field_omission[of example_db "SInt 2" "SInt 7" "SInt 5" "SText []"
        "SInt 200" 1 3, THEN conjunct1] h(1,2)
    by blast
  have w3: "dict_get (message_obj example_db
      (SInt 3, SInt 8, SInt 5, SText [], SInt 300, 2, 3)) ''m'' = Some (JStr [])"
    using message_text_field_omission[of example_db "SInt 3" "SInt 8" "SInt 5" "SText []"
        "SInt 300" 2 3, THEN conjunct2]
    by (simp only: h if_False if_True simp_thms)
  have w1: "dict_get (message_obj example_db
      (SInt 1, SInt 7, SInt 5, SText ''hi'', SInt 100, 0, 3)) ''m'' = Some (JStr ''hi'')"
    using message_text_field_omission[of example_db "SInt 1" "SInt 7" "SInt 5" "SText ''hi''"
        "SInt 100" 0 3, THEN conjunct2]
    by (simp only: h if_False if_True simp_thms json_of.simps)
  from h w1 w2 w3 show ?thesis by blast
qed

text \<open>
  C9, as the code has it. The entry written for a user row always holds \<open>name\<close> and
  always holds \<open>avatar\<close>, the latter with the value of the avatar column, \<open>null\<close>
  when the user has no avatar reference; it holds \<open>displayName\<close> exactly when the display
  name is present and not empty, with that value; it holds no other field. With the user
  ids distinct, the entry stored under a row's id in the \<open>users\<close> map of the metadata is
  the entry of that row.
\<close>

theorem user_entry_fields:
  "dict_get (user_data (user_id, name, display_name, avatar_url)) ''name'' = Some (json_of name)
   \<and> dict_get (user_data (user_id, name, display_name, avatar_url)) ''avatar''
       = Some (json_of avatar_url)
   \<and> (dict_has (user_data (user_id, name, display_name, avatar_url)) ''displayName''
        \<longleftrightarrow> truthy display_name)
   \<and> (truthy display_name \<longrightarrow>
        dict_get (user_data (user_id, name, display_name, avatar_url)) ''displayName''
        = Some (json_of display_name))
   \<and> set (map fst (user_data (user_id, name, display_name, avatar_url)))
        \<subseteq> {''name'', ''avatar'', ''displayName''}
   \<and> (distinct (map (\<lambda>row. py_str (fst row)) (users_tbl db))
        \<and> (user_id, name, display_name, avatar_url) \<in> set (users_tbl db)
        \<longrightarrow> dict_get (fetch_users db) (py_str user_id)
            = Some (JObj (user_data (user_id, name, display_name, avatar_url))))
   \<and> (fetch_metadata lower db = Inr md \<longrightarrow> dict_get md ''users'' = Some (JObj (fetch_users db)))"
proof -
  let ?row = "(user_id, name, display_name, avatar_url)"
  have f1: "dict_get (user_data ?row) ''name'' = Some (json_of name)"
    by (simp add: dict_get_def Let_def)
  have f2: "dict_get (user_data ?row) ''avatar'' = Some (json_of avatar_url)"
    by (simp add: dict_get_def Let_def)
  have f3: "dict_has (user_data ?row) ''displayName'' \<longleftrightarrow> truthy display_name"
    by (simp add: dict_has_def Let_def)
  have f4: "truthy display_name \<longrightarrow>
         dict_get (user_data ?row) ''displayName'' = Some (json_of display_name)"
    by (simp add: dict_get_def Let_def)
  have f5: "set (map fst (user_data ?row)) \<subseteq> {''name'', ''avatar'', ''displayName''}"
    by (simp add: Let_def)
  have g: "dict_get (fetch_users db) (py_str user_id) = Some (JObj (user_data ?row))"
    if "distinct (map (\<lambda>row. py_str (fst row)) (users_tbl db))" "?row \<in> set (users_tbl db)"
    using foldl_dict_set_distinct[of "\<lambda>row. py_str (fst row)" "users_tbl db" ?row
        "\<lambda>row. JObj (user_data row)" "[]"] that
    by (simp add: fetch_users_def)
  have h: "fetch_metadata lower db = Inr md \<longrightarrow> dict_get md ''users'' = Some (JObj (fetch_users db))"
    by (auto simp: fetch_metadata_def Let_def dict_get_def split: sum.splits)
  from f1 f2 f3 f4 f5 g h show ?thesis by blast
qed

theorem user_entry_fields_witness:
  "truthy (SText ''Ann'')
   \<and> dict_get (user_data (SInt 7, SText ''ann'', SText ''Ann'', SText ''a1'')) ''displayName''
       = Some (JStr ''Ann'')
   \<and> distinct (map (\<lambda>row. py_str (fst row)) (users_tbl example_db))
   \<and> (SInt 7, SText ''ann'', SText ''Ann'', SText ''a1'') \<in> set (users_tbl example_db)
   \<and> dict_get (fetch_users example_db) ''7''
       = Some (JObj [(''name'', JStr ''ann''), (''avatar'', JStr ''a1''),
                     (''displayName'', JStr ''Ann'')])
   \<and> fetch_metadata id example_db
       = Inr [(''users'', JObj (fetch_users example_db)), (''servers'', JObj []),
              (''channels'', JObj [])]
   \<and> dict_get [(''users'', JObj (fetch_users example_db)), (''servers'', JObj []),
               (''channels'', JObj [])] ''users''
       = Some (JObj (fetch_users example_db))"
proof -
  have h1: "truthy (SText ''Ann'')" by simp
  have h2: "distinct (map (\<lambda>row. py_str (fst row)) (users_tbl example_db))"
    by (simp add: example_db_def str_int_digits)
  have h3: "(SInt 7, SText ''ann'', SText ''Ann'', SText ''a1'') \<in> set (users_tbl example_db)"
    by (simp add: example_db_def)
  have h4: "fetch_metadata id example_db
       = Inr [(''users'', JObj (fetch_users example_db)), (''servers'', JObj []),
              (''channels'', JObj [])]"
    by (simp add: fetch_metadata_def fetch_channels_def example_db_def Let_def)
  from user_entry_fields[of "SInt 7" "SText ''ann''" "SText ''Ann''" "SText ''a1''" example_db id
          "[(''users'', JObj (fetch_users example_db)), (''servers'', JObj []),
            (''channels'', JObj [])]"]
    h1 h2 h3 h4
  show ?thesis by (simp add: str_int_digits)
qed

text \<open>
  The claim as the specification words it fails on the user without avatar reference: the
  entry written for the row still holds the field \<open>avatar\<close>, with the value \<open>null\<close>.
\<close>

theorem user_entry_avatar_counterexample:
  "(SInt 8, SText ''bob'', SNull, SNull) \<in> set (users_tbl example_db)
   \<and> dict_has (user_data (SInt 8, SText ''bob'', SNull, SNull)) ''avatar''
   \<and> dict_get (fetch_users example_db) ''8''
       = Some (JObj [(''name'', JStr ''bob''), (''avatar'', JNull)])"
  by (simp add: example_db_def dict_has_def dict_get_def fetch_users_def str_int_digits Let_def)

section \<open>Viewer: snowflake comparators (scripts/processor.mjs, \<open>sorter\<close>)\<close>

text \<open>
  A JavaScript string is a sequence of code units; the relational operators on two
  strings compare them code unit by code unit, a proper prefix being the smaller one.
  The code units are kept polymorphic in a linear order, so that the same definitions
  read on \<^typ>\<open>string\<close> (through the order on \<^typ>\<open>char\<close>) and on lists of numbers.
\<close>

fun js_str_less :: "'a::linorder list \<Rightarrow> 'a list \<Rightarrow> bool" where
  "js_str_less [] [] = False"
| "js_str_less [] (y # ys) = True"
| "js_str_less (x # xs) [] = False"
| "js_str_less (x # xs) (y # ys) = (if x = y then js_str_less xs ys else x < y)"

definition js_str_greater :: "'a::linorder list \<Rightarrow> 'a list \<Rightarrow> bool" where
  "js_str_greater k1 k2 = js_str_less k2 k1"

text \<open>
  \<^verbatim>\<open>oldestToNewest: (key1, key2) => {
    if (key1.length === key2.length) {
      return key1 > key2 ? 1 : key1 < key2 ? -1 : 0;
    } else {
      return key1.length > key2.length ? 1 : -1;
    }
  }\<close>
\<close>

definition oldestToNewest :: "'a::linorder list \<Rightarrow> 'a list \<Rightarrow> int" where
  "oldestToNewest key1 key2 =
     (if length key1 = length key2
      then (if js_str_greater key1 key2 then 1 else if js_str_less key1 key2 then - 1 else 0)
      else (if length key1 > length key2 then 1 else - 1))"

definition newestToOldest :: "'a::linorder list \<Rightarrow> 'a list \<Rightarrow> int" where
  "newestToOldest key1 key2 =
     (if length key1 = length key2
      then (if js_str_greater key1 key2 then - 1 else if js_str_less key1 key2 then 1 else 0)
      else (if length key1 > length key2 then - 1 else 1))"

text \<open>
  \<open>Array.prototype.sort(comparefn)\<close> is stable; it is modelled as the stable insertion
  sort that puts each element, taken from left to right, in front of the first element
  the comparison function places strictly after it.
\<close>

fun js_insert :: "('a \<Rightarrow> 'a \<Rightarrow> int) \<Rightarrow> 'a \<Rightarrow> 'a list \<Rightarrow> 'a list" where
  "js_insert cmp x [] = [x]"
| "js_insert cmp x (y # ys) = (if cmp x y < 0 then x # y # ys else y # js_insert cmp x ys)"

definition js_sort :: "('a \<Rightarrow> 'a \<Rightarrow> int) \<Rightarrow> 'a list \<Rightarrow> 'a list" where
  "js_sort cmp xs = foldl (\<lambda>acc x. js_insert cmp x acc) [] xs"

text \<open>The default order of strings, used for the contrast with the comparator.\<close>

definition lexicographic :: "'a::linorder list \<Rightarrow> 'a list \<Rightarrow> int" where
  "lexicographic key1 key2 =
     (if js_str_less key1 key2 then - 1 else if js_str_greater key1 key2 then 1 else 0)"

subsection \<open>Facts about the string order\<close>

lemma js_str_less_irrefl: "\<not> js_str_less a a"
  by (induction a) auto

lemma js_str_less_lexord:
  "js_str_less a b \<longleftrightarrow> (a, b) \<in> lexord {(x, y). x < y}"
  by (induction a b rule: js_str_less.induct) auto

lemma js_str_less_total:
  "length a = length b \<Longrightarrow> \<not> js_str_less a b \<Longrightarrow> \<not> js_str_less b a \<Longrightarrow> a = b"
  by (induction a b rule: js_str_less.induct) (auto split: if_splits)

lemma js_str_less_asym: "js_str_less a b \<Longrightarrow> \<not> js_str_less b a"
  by (induction a b rule: js_str_less.induct) (auto split: if_splits)

lemma js_str_less_trans: "js_str_less a b \<Longrightarrow> js_str_less b c \<Longrightarrow> js_str_less a c"
  unfolding js_str_less_lexord
  by (rule lexord_trans[where r="{(x, y). x < y}"]) (auto simp: trans_def)

lemma oldestToNewest_le_iff:
  "oldestToNewest a b \<le> 0 \<longleftrightarrow>
     length a < length b \<or> (length a = length b \<and> \<not> js_str_less b a)"
  by (auto simp: oldestToNewest_def js_str_greater_def)

lemma oldestToNewest_less_iff:
  "oldestToNewest a b < 0 \<longleftrightarrow>
     length a < length b \<or> (length a = length b \<and> js_str_less a b)"
  by (auto simp: oldestToNewest_def js_str_greater_def dest: js_str_less_asym)

lemma oldestToNewest_trans:
  "oldestToNewest a b \<le> 0 \<Longrightarrow> oldestToNewest b c \<le> 0 \<Longrightarrow> oldestToNewest a c \<le> 0"
  unfolding oldestToNewest_le_iff
  by (metis js_str_less_total js_str_less_trans less_trans)

lemma oldestToNewest_total: "\<not> oldestToNewest a b < 0 \<Longrightarrow> oldestToNewest b a \<le> 0"
  unfolding oldestToNewest_le_iff oldestToNewest_less_iff by (metis linorder_neqE_nat)

subsection \<open>Facts about the sort\<close>

lemma set_js_insert: "set (js_insert cmp x ys) = insert x (set ys)"
  by (induction ys) auto

lemma mset_js_insert: "mset (js_insert cmp x ys) = add_mset x (mset ys)"
  by (induction ys) auto

lemma mset_js_sort_aux:
  "mset (foldl (\<lambda>acc x. js_insert cmp x acc) acc xs) = mset acc + mset xs"
  by (induction xs arbitrary: acc) (auto simp: mset_js_insert)

lemma mset_js_sort: "mset (js_sort cmp xs) = mset xs"
  by (simp add: js_sort_def mset_js_sort_aux)


lemma length_js_sort: "length (js_sort cmp xs) = length xs"
  using mset_js_sort[of cmp xs] by (metis size_mset)

lemma distinct_js_sort: "distinct (js_sort cmp xs) = distinct xs"
  using mset_js_sort[of cmp xs] by (metis distinct_count_atmost_1 set_mset_mset)

lemma sorted_js_insert:
  "sorted_wrt (\<lambda>a b. oldestToNewest a b \<le> 0) ys \<Longrightarrow>
   sorted_wrt (\<lambda>a b. oldestToNewest a b \<le> 0) (js_insert oldestToNewest x ys)"
proof (induction ys)
  case Nil
  then show ?case by simp
next
  case (Cons y ys)
  show ?case
  proof (cases "oldestToNewest x y < 0")
    case True
    then have xy: "oldestToNewest x y \<le> 0" by simp
    have "\<forall>z\<in>set ys. oldestToNewest x z \<le> 0"
      using Cons.prems xy oldestToNewest_trans[of x y] by auto
    with Cons.prems True xy show ?thesis by simp
  next
    case False
    then have "oldestToNewest y x \<le> 0" by (rule oldestToNewest_total)
    with Cons False show ?thesis by (auto simp: set_js_insert)
  qed
qed

lemma sorted_js_sort_aux:
  "sorted_wrt (\<lambda>a b. oldestToNewest a b \<le> 0) acc \<Longrightarrow>
   sorted_wrt (\<lambda>a b. oldestToNewest a b \<le> 0)
     (foldl (\<lambda>acc x. js_insert oldestToNewest x acc) acc xs)"
  by (induction xs arbitrary: acc) (auto intro: sorted_js_insert)

lemma sorted_js_sort:
  "sorted_wrt (\<lambda>a b. oldestToNewest a b \<le> 0) (js_sort oldestToNewest xs)"
  by (simp add: js_sort_def sorted_js_sort_aux)

subsection \<open>The comparator claims\<close>

text \<open>
  C3. The comparator \<open>oldestToNewest\<close> puts the shorter of two id strings first; two
  strings of the same length are ordered lexicographically (the library relation
  \<^const>\<open>lexord\<close> on the code units), and compare equal only when they are the same
  string. Sorting with it orders every list by this relation and keeps its elements; the
  ids 9, 10, 100 come out as 9, 10, 100 from any of the three arrangements tried, where
  the plain string order gives 10, 100, 9.
\<close>

theorem oldestToNewest_length_then_lexicographic:
  "(length a < length b \<longrightarrow> oldestToNewest a b = - 1 \<and> oldestToNewest b a = 1)
   \<and> (length a = length b \<longrightarrow>
        (oldestToNewest a b = - 1 \<longleftrightarrow> (a, b) \<in> lexord {(x, y). x < y})
      \<and> (oldestToNewest a b = 1 \<longleftrightarrow> (b, a) \<in> lexord {(x, y). x < y})
      \<and> (oldestToNewest a b = 0 \<longleftrightarrow> a = b))
   \<and> sorted_wrt (\<lambda>a b. oldestToNewest a b \<le> 0) (js_sort oldestToNewest xs)
   \<and> mset (js_sort oldestToNewest xs) = mset xs
   \<and> js_sort oldestToNewest [''9'', ''10'', ''100''] = [''9'', ''10'', ''100'']
   \<and> js_sort oldestToNewest [''100'', ''10'', ''9''] = [''9'', ''10'', ''100'']
   \<and> js_sort oldestToNewest [''10'', ''100'', ''9''] = [''9'', ''10'', ''100'']
   \<and> js_sort lexicographic [''9'', ''10'', ''100''] = [''10'', ''100'', ''9'']"
proof -
  have l1: "length a < length b \<longrightarrow> oldestToNewest a b = - 1 \<and> oldestToNewest b a = 1"
    by (simp add: oldestToNewest_def)
  have l2: "length a = length b \<longrightarrow>
        (oldestToNewest a b = - 1 \<longleftrightarrow> (a, b) \<in> lexord {(x, y). x < y})
      \<and> (oldestToNewest a b = 1 \<longleftrightarrow> (b, a) \<in> lexord {(x, y). x < y})
      \<and> (oldestToNewest a b = 0 \<longleftrightarrow> a = b)"
    using js_str_less_asym[of a b] js_str_less_total[of a b] js_str_less_irrefl[of a]
    by (auto simp: oldestToNewest_def js_str_greater_def js_str_less_lexord[symmetric])
  have s1: "js_sort oldestToNewest [''9'', ''10'', ''100''] = [''9'', ''10'', ''100'']"
    by (simp add: js_sort_def oldestToNewest_def js_str_greater_def)
  have s2: "js_sort oldestToNewest [''100'', ''10'', ''9''] = [''9'', ''10'', ''100'']"
    by (simp add: js_sort_def oldestToNewest_def js_str_greater_def)
  have s3: "js_sort oldestToNewest [''10'', ''100'', ''9''] = [''9'', ''10'', ''100'']"
    by (simp add: js_sort_def oldestToNewest_def js_str_greater_def)
  have s4: "js_sort lexicographic [''9'', ''10'', ''100''] = [''10'', ''100'', ''9'']"
    by (simp add: js_sort_def lexicographic_def js_str_greater_def less_char_def)
  from l1 l2 s1 s2 s3 s4 sorted_js_sort[of xs] mset_js_sort[of oldestToNewest xs]
  show ?thesis by blast
qed

theorem oldestToNewest_length_then_lexicographic_witness:
  "length ''9'' < length ''10'' \<and> oldestToNewest ''9'' ''10'' = - 1
   \<and> oldestToNewest ''10'' ''9'' = 1
   \<and> length ''10'' = length ''99'' \<and> (''10'', ''99'') \<in> lexord {(x, y). x < y}
   \<and> oldestToNewest ''10'' ''99'' = - 1"
proof -
  have h1: "length ''9'' < length ''10''" by simp
  have h2: "length ''10'' = length ''99''" by simp
  have h3: "(''10'', ''99'') \<in> lexord {(x, y). x < y}"
    by (simp add: less_char_def)
  from oldestToNewest_length_then_lexicographic[of "''9''" "''10''" "[]"] h1
  have c1: "oldestToNewest ''9'' ''10'' = - 1 \<and> oldestToNewest ''10'' ''9'' = 1" by blast
  from oldestToNewest_length_then_lexicographic[of "''10''" "''99''" "[]"] h2 h3
  have c2: "oldestToNewest ''10'' ''99'' = - 1" by blast
  from h1 h2 h3 c1 c2 show ?thesis by blast
qed

text \<open>
  C10. \<open>newestToOldest\<close> is the negation of \<open>oldestToNewest\<close> on every pair of strings,
  and either comparator returns 0 exactly on two equal strings.
\<close>

theorem newestToOldest_negates_oldestToNewest:
  "newestToOldest a b = - oldestToNewest a b
   \<and> (oldestToNewest a b = 0 \<longleftrightarrow> a = b)
   \<and> (newestToOldest a b = 0 \<longleftrightarrow> a = b)"
  using js_str_less_asym[of a b] js_str_less_total[of a b] js_str_less_irrefl[of a]
  by (auto simp: oldestToNewest_def newestToOldest_def js_str_greater_def)

section \<open>Viewer: rendering of message text (scripts/dom.mjs, scripts/discord.mjs)\<close>

text \<open>
  \<^verbatim>\<open>var HTML_ENTITY_MAP = { "&": "&amp;", "<": "&lt;", ">": "&gt;", '"': "&quot;", "'": "&#39;" };
  static escapeHTML(html) {
    return String(html).replace(HTML_ENTITY_REGEX, (s) => HTML_ENTITY_MAP[s]);
  }\<close>
\<close>

definition HTML_ENTITY_MAP :: "char \<Rightarrow> string option" where
  "HTML_ENTITY_MAP c =
     (if c = CHR ''&'' then Some ''&amp;''
      else if c = CHR ''<'' then Some ''&lt;''
      else if c = CHR ''>'' then Some ''&gt;''
      else if c = CHR 0x22 then Some ''&quot;''
      else if c = CHR 0x27 then Some ''&#39;''
      else None)"

definition escapeHTML :: "string \<Rightarrow> string" where
  "escapeHTML html = concat (map (\<lambda>c. case HTML_ENTITY_MAP c of Some e \<Rightarrow> e | None \<Rightarrow> [c]) html)"

text \<open>
  The no-embed wrapper,
  \<^verbatim>\<open>formatUrlNoEmbed: /<(\b(?:https?|ftp|file):\/\/[-A-Z0-9+&@#\/%?=~_|!:,.;]*[-A-Z0-9+&@#\/%=~_|])>/ig\<close>
  replaced by its group \<open>$1\<close>. After the opening bracket comes a scheme, matched without
  regard to case; then the longest run of characters of the first class, which has to be
  followed by the closing bracket (the bracket is not in the class, so no shorter run can
  be) and to end in a character of the second class. The word boundary holds wherever a
  scheme follows the bracket.
\<close>

definition is_alnum :: "char \<Rightarrow> bool" where
  "is_alnum c = (let n = (of_char c :: nat) in
       (65 \<le> n \<and> n \<le> 90) \<or> (97 \<le> n \<and> n \<le> 122) \<or> (48 \<le> n \<and> n \<le> 57))"

definition is_url_end_char :: "char \<Rightarrow> bool" where
  "is_url_end_char c = (is_alnum c \<or> c \<in> set ''-+&@#/%=~_|'')"

definition is_url_char :: "char \<Rightarrow> bool" where
  "is_url_char c = (is_url_end_char c \<or> c \<in> set ''?!:,.;'')"

definition ascii_lower :: "char \<Rightarrow> char" where
  "ascii_lower c = (let n = (of_char c :: nat) in if 65 \<le> n \<and> n \<le> 90 then char_of (n + 32) else c)"

text \<open>A literal of the pattern (in lower case) against the front of the text.\<close>

fun match_literal_ci :: "string \<Rightarrow> string \<Rightarrow> (string \<times> string) option" where
  "match_literal_ci [] s = Some ([], s)"
| "match_literal_ci (p # ps) [] = None"
| "match_literal_ci (p # ps) (c # cs) =
     (if ascii_lower c = p
      then (case match_literal_ci ps cs of Some (m, rest) \<Rightarrow> Some (c # m, rest) | None \<Rightarrow> None)
      else None)"

fun match_first :: "string list \<Rightarrow> string \<Rightarrow> (string \<times> string) option" where
  "match_first [] s = None"
| "match_first (p # ps) s =
     (case match_literal_ci p s of Some r \<Rightarrow> Some r | None \<Rightarrow> match_first ps s)"

definition match_no_embed :: "string \<Rightarrow> (string \<times> string) option" where
  "match_no_embed s =
     (case match_first [''https://'', ''http://'', ''ftp://'', ''file://''] s of
        None \<Rightarrow> None
      | Some (scheme, rest) \<Rightarrow>
          (let run = takeWhile is_url_char rest; after = dropWhile is_url_char rest
           in if run \<noteq> [] \<and> is_url_end_char (last run)
                 \<and> (case after of [] \<Rightarrow> False | c # _ \<Rightarrow> c = CHR ''>'')
              then Some (scheme @ run, tl after) else None))"

lemma match_literal_ci_length:
  "match_literal_ci p s = Some (m, rest) \<Longrightarrow> length rest \<le> length s"
  by (induction p s arbitrary: m rest rule: match_literal_ci.induct)
    (auto split: if_splits option.splits)

lemma match_first_length: "match_first ps s = Some (m, rest) \<Longrightarrow> length rest \<le> length s"
  by (induction ps) (auto split: option.splits dest: match_literal_ci_length)

lemma match_no_embed_length: "match_no_embed s = Some (url, rest) \<Longrightarrow> length rest \<le> length s"
proof -
  assume a: "match_no_embed s = Some (url, rest)"
  then obtain scheme r where m: "match_first [''https://'', ''http://'', ''ftp://'', ''file://''] s = Some (scheme, r)"
    unfolding match_no_embed_def by (auto split: option.splits)
  have "length (tl (dropWhile is_url_char r)) \<le> length r"
    using length_dropWhile_le[of is_url_char r] by simp
  moreover have "rest = tl (dropWhile is_url_char r)"
    using a m unfolding match_no_embed_def by (auto simp: Let_def split: if_splits)
  ultimately show ?thesis using match_first_length[OF m] by simp
qed

text \<open>\<open>contents.replace(regex.formatUrlNoEmbed, "$1")\<close>: every match, from left to right.\<close>

function formatUrlNoEmbed_replace :: "string \<Rightarrow> string" where
  "formatUrlNoEmbed_replace [] = []"
| "formatUrlNoEmbed_replace (c # cs) =
     (if c = CHR ''<''
      then (case match_no_embed cs of
              Some (url, rest) \<Rightarrow> url @ formatUrlNoEmbed_replace rest
            | None \<Rightarrow> c # formatUrlNoEmbed_replace cs)
      else c # formatUrlNoEmbed_replace cs)"
  by pat_completeness auto
termination
  by (relation "measure length") (auto dest: match_no_embed_length)

text \<open>
  The replacements that follow work through the regular expressions of the \<open>regex\<close>
  table; \<open>js_replace rule s\<close> stands for \<open>s.replace(regex.rule, replacement)\<close> with the
  replacement \<open>processMessageContents\<close> gives for that rule, and is a parameter. The rules
  are applied in the order of the source.
\<close>

datatype render_rule =
    SpecialEscapedBacktick | FormatCodeBlock | FormatCodeInline | SpecialEscapedSingle
  | SpecialEscapedDouble | FormatBold | FormatUnderline | FormatItalic1 | FormatItalic2
  | FormatStrike | FormatUrl | MentionChannel | MentionUser | CustomEmojiStatic
  | CustomEmojiAnimated string

definition formatting_rules :: "render_rule list" where
  "formatting_rules =
     [SpecialEscapedBacktick, FormatCodeBlock, FormatCodeInline, SpecialEscapedSingle,
      SpecialEscapedDouble, FormatBold, FormatUnderline, FormatItalic1, FormatItalic2,
      FormatStrike]"

definition linking_rules :: "string \<Rightarrow> render_rule list" where
  "linking_rules animatedEmojiExtension =
     [FormatUrl, MentionChannel, MentionUser, CustomEmojiStatic,
      CustomEmojiAnimated animatedEmojiExtension]"

definition apply_rules :: "(render_rule \<Rightarrow> string \<Rightarrow> string) \<Rightarrow> render_rule list \<Rightarrow> string \<Rightarrow> string" where
  "apply_rules js_replace rules s = foldl (\<lambda>processed rule. js_replace rule processed) s rules"

definition processMessageContents ::
  "(render_rule \<Rightarrow> string \<Rightarrow> string) \<Rightarrow> bool \<Rightarrow> bool \<Rightarrow> string \<Rightarrow> string" where
  "processMessageContents js_replace enableFormatting enableAnimatedEmoji contents =
     (let processed0 = escapeHTML (formatUrlNoEmbed_replace contents);
          processed1 = (if enableFormatting
                        then apply_rules js_replace formatting_rules processed0
                        else processed0);
          animatedEmojiExtension = (if enableAnimatedEmoji then ''gif'' else ''webp'');
          processed2 = apply_rules js_replace (linking_rules animatedEmojiExtension) processed1
      in ''<p>'' @ processed2 @ ''</p>'')"

subsection \<open>Escaping and the order of the stages\<close>

lemma escapeHTML_Nil: "escapeHTML [] = []"
  by (simp add: escapeHTML_def)

lemma escapeHTML_Cons:
  "escapeHTML (c # cs) = (case HTML_ENTITY_MAP c of Some e \<Rightarrow> e | None \<Rightarrow> [c]) @ escapeHTML cs"
  by (simp add: escapeHTML_def)

lemma escapeHTML_no_markup:
  "set (escapeHTML s) \<inter> {CHR ''<'', CHR ''>'', CHR 0x22, CHR 0x27} = {}"
  by (induction s)
    (auto simp: escapeHTML_Nil escapeHTML_Cons HTML_ENTITY_MAP_def split: if_splits)

lemma formatUrlNoEmbed_replace_no_bracket:
  "CHR ''<'' \<notin> set s \<Longrightarrow> formatUrlNoEmbed_replace s = s"
  by (induction s) auto

lemma formatUrlNoEmbed_replace_escaped:
  "formatUrlNoEmbed_replace (escapeHTML s) = escapeHTML s"
  using escapeHTML_no_markup[of s] by (intro formatUrlNoEmbed_replace_no_bracket) auto

lemma formatUrlNoEmbed_replace_example:
  "formatUrlNoEmbed_replace ''<http://a.b>'' = ''http://a.b''"
  by (simp add: match_no_embed_def ascii_lower_def is_url_char_def is_url_end_char_def
      is_alnum_def Let_def)

lemma escapeHTML_examples:
  "escapeHTML ''<http://a.b>'' = ''&lt;http://a.b&gt;''"
  "escapeHTML ''http://a.b'' = ''http://a.b''"
  by (simp_all add: escapeHTML_def HTML_ENTITY_MAP_def)

lemma escapeHTML_append: "escapeHTML (a @ b) = escapeHTML a @ escapeHTML b"
  by (simp add: escapeHTML_def)

lemma escapeHTML_other:
  "c \<notin> {CHR ''&'', CHR ''<'', CHR ''>'', CHR 0x22, CHR 0x27} \<Longrightarrow> escapeHTML [c] = [c]"
  by (simp add: escapeHTML_def HTML_ENTITY_MAP_def)

lemma escapeHTML_five:
  "escapeHTML [CHR ''&'', CHR ''<'', CHR ''>'', CHR 0x22, CHR 0x27] = ''&amp;&lt;&gt;&quot;&#39;''"
  by (simp add: escapeHTML_def HTML_ENTITY_MAP_def)

lemma formatUrlNoEmbed_replace_examples:
  "formatUrlNoEmbed_replace ''x <HTTPS://A.b/c?d=1> y'' = ''x HTTPS://A.b/c?d=1 y''"
  "formatUrlNoEmbed_replace ''<ftp://x/y> <file://z/w>'' = ''ftp://x/y file://z/w''"
  "formatUrlNoEmbed_replace ''<http://a.b.>'' = ''<http://a.b.>''"
  "formatUrlNoEmbed_replace ''<http://a.b'' = ''<http://a.b''"
  "formatUrlNoEmbed_replace ''<gopher://a.b>'' = ''<gopher://a.b>''"
  by code_simp+

text \<open>
  C8, as the code has it. Rendering first unwraps the no-embed URL wrappers, on the raw
  text, and escapes the result: each of the characters \<open>&\<close>, \<open><\<close>, \<open>>\<close>, double
  quote and single quote becomes its entity and every other character stays, so the text
  handed on holds none of \<open><\<close>, \<open>>\<close>, double quote and single quote. Every other
  stage (the formatting rules when formatting is enabled, then URL linking, mentions and
  emoji) works on that escaped text, in the order of the source. The unwrapping could not
  come after the escaping: on an escaped text it finds nothing to unwrap.
\<close>

theorem processMessageContents_unwraps_then_escapes:
  "processMessageContents js_replace enableFormatting enableAnimatedEmoji contents
     = ''<p>''
       @ apply_rules js_replace (linking_rules (if enableAnimatedEmoji then ''gif'' else ''webp''))
           (apply_rules js_replace (if enableFormatting then formatting_rules else [])
              (escapeHTML (formatUrlNoEmbed_replace contents)))
       @ ''</p>''
   \<and> formatting_rules
       = [SpecialEscapedBacktick, FormatCodeBlock, FormatCodeInline, SpecialEscapedSingle,
          SpecialEscapedDouble, FormatBold, FormatUnderline, FormatItalic1, FormatItalic2,
          FormatStrike]
   \<and> apply_rules js_replace [r1, r2] s = js_replace r2 (js_replace r1 s)
   \<and> escapeHTML (a @ b) = escapeHTML a @ escapeHTML b
   \<and> escapeHTML [CHR ''&'', CHR ''<'', CHR ''>'', CHR 0x22, CHR 0x27] = ''&amp;&lt;&gt;&quot;&#39;''
   \<and> (c \<notin> {CHR ''&'', CHR ''<'', CHR ''>'', CHR 0x22, CHR 0x27} \<longrightarrow> escapeHTML [c] = [c])
   \<and> set (escapeHTML (formatUrlNoEmbed_replace contents))
        \<inter> {CHR ''<'', CHR ''>'', CHR 0x22, CHR 0x27} = {}
   \<and> formatUrlNoEmbed_replace (escapeHTML contents) = escapeHTML contents
   \<and> formatUrlNoEmbed_replace ''x <HTTPS://A.b/c?d=1> y'' = ''x HTTPS://A.b/c?d=1 y''
   \<and> formatUrlNoEmbed_replace ''<ftp://x/y> <file://z/w>'' = ''ftp://x/y file://z/w''
   \<and> formatUrlNoEmbed_replace ''<http://a.b.>'' = ''<http://a.b.>''
   \<and> formatUrlNoEmbed_replace ''<http://a.b'' = ''<http://a.b''
   \<and> formatUrlNoEmbed_replace ''<gopher://a.b>'' = ''<gopher://a.b>''"
proof -
  have p: "processMessageContents js_replace enableFormatting enableAnimatedEmoji contents
     = ''<p>''
       @ apply_rules js_replace (linking_rules (if enableAnimatedEmoji then ''gif'' else ''webp''))
           (apply_rules js_replace (if enableFormatting then formatting_rules else [])
              (escapeHTML (formatUrlNoEmbed_replace contents)))
       @ ''</p>''"
    by (simp add: processMessageContents_def Let_def apply_rules_def)
  have q: "apply_rules js_replace [r1, r2] s = js_replace r2 (js_replace r1 s)"
    by (simp add: apply_rules_def)
  have o: "c \<notin> {CHR ''&'', CHR ''<'', CHR ''>'', CHR 0x22, CHR 0x27} \<longrightarrow> escapeHTML [c] = [c]"
    using escapeHTML_other[of c] by blast
  from p q o formatting_rules_def escapeHTML_append[of a b] escapeHTML_five
    escapeHTML_no_markup[of "formatUrlNoEmbed_replace contents"]
    formatUrlNoEmbed_replace_escaped[of contents] formatUrlNoEmbed_replace_examples
  show ?thesis by blast
qed

theorem processMessageContents_unwraps_then_escapes_witness:
  "CHR ''a'' \<notin> {CHR ''&'', CHR ''<'', CHR ''>'', CHR 0x22, CHR 0x27}
   \<and> escapeHTML ''a'' = ''a''
   \<and> processMessageContents (\<lambda>rule s. s) True False ''a <b> <http://c.d> & e''
       = ''<p>a &lt;b&gt; http://c.d &amp; e</p>''"
proof -
  have h: "CHR ''a'' \<notin> {CHR ''&'', CHR ''<'', CHR ''>'', CHR 0x22, CHR 0x27}" by simp
  note t = processMessageContents_unwraps_then_escapes[of "\<lambda>rule s. s" True False
      "''a <b> <http://c.d> & e''" SpecialEscapedBacktick FormatBold "[]" "[]" "[]" "CHR ''a''"]
  have e: "escapeHTML ''a'' = ''a''" using t h by blast
  have u: "formatUrlNoEmbed_replace ''a <b> <http://c.d> & e'' = ''a <b> http://c.d & e''"
    by (simp add: match_no_embed_def ascii_lower_def is_url_char_def is_url_end_char_def
        is_alnum_def Let_def)
  have v: "escapeHTML ''a <b> http://c.d & e'' = ''a &lt;b&gt; http://c.d &amp; e''"
    by (simp add: escapeHTML_def HTML_ENTITY_MAP_def)
  have "processMessageContents (\<lambda>rule s. s) True False ''a <b> <http://c.d> & e''
       = ''<p>a &lt;b&gt; http://c.d &amp; e</p>''"
    using t[THEN conjunct1] unfolding u v
    by (simp add: apply_rules_def formatting_rules_def linking_rules_def)
  with h e show ?thesis by blast
qed

text \<open>
  The claim as the specification words it (the no-embed unwrapping among the stages
  that see only escaped text) fails on a wrapped URL: the unwrapping has run on the raw
  text before the escaping, and the two orders give different texts.
\<close>

theorem escape_is_not_first_counterexample:
  "formatUrlNoEmbed_replace ''<http://a.b>'' = ''http://a.b''
   \<and> escapeHTML (formatUrlNoEmbed_replace ''<http://a.b>'') = ''http://a.b''
   \<and> formatUrlNoEmbed_replace (escapeHTML ''<http://a.b>'') = ''&lt;http://a.b&gt;''
   \<and> processMessageContents (\<lambda>rule s. s) True True ''<http://a.b>'' = ''<p>http://a.b</p>''"
proof -
  have a: "escapeHTML (formatUrlNoEmbed_replace ''<http://a.b>'') = ''http://a.b''"
    unfolding formatUrlNoEmbed_replace_example escapeHTML_examples ..
  have b: "formatUrlNoEmbed_replace (escapeHTML ''<http://a.b>'') = ''&lt;http://a.b&gt;''"
    using formatUrlNoEmbed_replace_escaped[of "''<http://a.b>''"]
    unfolding escapeHTML_examples .
  have c: "processMessageContents (\<lambda>rule s. s) True True ''<http://a.b>'' = ''<p>http://a.b</p>''"
    unfolding processMessageContents_def a
    by (simp add: apply_rules_def formatting_rules_def linking_rules_def)
  from formatUrlNoEmbed_replace_example a b c show ?thesis by blast
qed

section \<open>Viewer: the document store and the query engine (scripts/state.mjs)\<close>

subsection \<open>The archive as the viewer holds it\<close>

text \<open>
  A JavaScript object with string keys is an association list in the order
  \<open>Object.keys\<close> enumerates it, its keys distinct. The keys of the archive are ids
  (decimal strings). A field that may be missing is an \<open>option\<close>.
\<close>

record attachment =
  att_url :: string
  att_name :: string
  att_width :: "int option"
  att_height :: "int option"

record message =
  msg_u :: string
  msg_t :: int
  msg_m :: "string option"
  msg_a :: "attachment list option"
  msg_e :: "string list option"
  msg_te :: "int option"
  msg_r :: "string option"
  msg_f :: "int option"

record user =
  user_name :: string
  user_displayName :: "string option"
  user_avatar :: "string option"

record server =
  server_name :: string
  server_type :: string

record channel =
  chan_server :: string
  chan_name :: string
  chan_parent :: "string option"
  chan_position :: "int option"
  chan_topic :: "string option"
  chan_nsfw :: "bool option"

record meta =
  meta_users :: "(string \<times> user) list"
  meta_servers :: "(string \<times> server) list"
  meta_channels :: "(string \<times> channel) list"

type_synonym messages = "(string \<times> message) list"
type_synonym file_data = "(string \<times> messages) list"

text \<open>
  An argument of \<open>uploadFile\<close> as JavaScript sees it: \<open>typeof\<close> is \<open>"object"\<close> for an
  object and for \<open>null\<close>; \<open>x != null\<close> is false for \<open>null\<close> and \<open>undefined\<close> only.
\<close>

datatype 'a jsval = JSUndefined | JSNull | JSPrimitive | JSObject 'a

fun typeof_is_object :: "'a jsval \<Rightarrow> bool" where
  "typeof_is_object JSNull = True"
| "typeof_is_object (JSObject x) = True"
| "typeof_is_object _ = False"

fun not_nullish :: "'a jsval \<Rightarrow> bool" where
  "not_nullish JSUndefined = False"
| "not_nullish JSNull = False"
| "not_nullish _ = True"

text \<open>
  The errors: the two strings \<open>uploadFile\<close> throws, a \<open>TypeError\<close> (a property read
  of \<open>undefined\<close> or \<open>null\<close>), and a \<open>RangeError\<close> (the call stack exhausted).
\<close>

datatype js_error = AlreadyLoaded | InvalidFormat | TypeError | RangeError

subsection \<open>Filters (scripts/processor.mjs, \<open>filter\<close>)\<close>

text \<open>
  \<open>tryParseUrl\<close> (the browser's URL parser) is a parameter: the path name of a URL that
  parses, \<open>None\<close> for one that does not.
\<close>

fun last_index_of_dot :: "string \<Rightarrow> nat option" where
  "last_index_of_dot [] = None"
| "last_index_of_dot (c # cs) =
     (case last_index_of_dot cs of
        Some i \<Rightarrow> Some (Suc i)
      | None \<Rightarrow> if c = CHR ''.'' then Some 0 else None)"

definition isImageUrl :: "string \<Rightarrow> bool" where
  "isImageUrl pathname =
     (let ext = (case last_index_of_dot pathname of
                   None \<Rightarrow> []
                 | Some dot \<Rightarrow> map ascii_lower (drop dot pathname))
      in ext = ''.png'' \<or> ext = ''.gif'' \<or> ext = ''.jpg'' \<or> ext = ''.jpeg'')"

definition isImageAttachment :: "(string \<Rightarrow> string option) \<Rightarrow> attachment \<Rightarrow> bool" where
  "isImageAttachment tryParseUrl att =
     (case tryParseUrl (att_url att) of None \<Rightarrow> False | Some pathname \<Rightarrow> isImageUrl pathname)"

fun starts_with :: "string \<Rightarrow> string \<Rightarrow> bool" where
  "starts_with s [] = True"
| "starts_with [] (p # ps) = False"
| "starts_with (c # cs) (p # ps) = (c = p \<and> starts_with cs ps)"

fun index_of_found :: "string \<Rightarrow> string \<Rightarrow> bool" where
  "index_of_found [] substr = (substr = [])"
| "index_of_found (c # cs) substr = (starts_with (c # cs) substr \<or> index_of_found cs substr)"

definition byUser :: "string \<Rightarrow> message \<Rightarrow> bool" where
  "byUser usr msg = (msg_u msg = usr)"

definition byTime :: "int \<Rightarrow> int \<Rightarrow> message \<Rightarrow> bool" where
  "byTime timeStart timeEnd msg = (msg_t msg \<ge> timeStart \<and> msg_t msg \<le> timeEnd)"

definition byContents :: "string \<Rightarrow> message \<Rightarrow> bool" where
  "byContents substr msg =
     index_of_found (case msg_m msg of Some m \<Rightarrow> m | None \<Rightarrow> []) substr"

text \<open>
  The embeds of a message are the raw JSON texts of the store; the property \<open>type\<close> of a
  string is \<open>undefined\<close>, so the test \<open>embed.type === "image"\<close> is false on each.
\<close>

definition withImages :: "(string \<Rightarrow> string option) \<Rightarrow> message \<Rightarrow> bool" where
  "withImages tryParseUrl msg =
     ((case msg_e msg of None \<Rightarrow> False | Some es \<Rightarrow> list_ex (\<lambda>embed. False) es)
      \<or> (case msg_a msg of None \<Rightarrow> False | Some as \<Rightarrow> list_ex (isImageAttachment tryParseUrl) as))"

definition withDownloads :: "(string \<Rightarrow> string option) \<Rightarrow> message \<Rightarrow> bool" where
  "withDownloads tryParseUrl msg =
     (case msg_a msg of
        None \<Rightarrow> False
      | Some as \<Rightarrow> list_ex (\<lambda>att. \<not> isImageAttachment tryParseUrl att) as)"

definition withEmbeds :: "message \<Rightarrow> bool" where
  "withEmbeds msg = (case msg_e msg of None \<Rightarrow> False | Some es \<Rightarrow> length es > 0)"

definition withAttachments :: "message \<Rightarrow> bool" where
  "withAttachments msg = (case msg_a msg of None \<Rightarrow> False | Some as \<Rightarrow> length as > 0)"

definition isEdited :: "message \<Rightarrow> bool" where
  "isEdited msg =
     (case msg_te msg of
        Some te \<Rightarrow> te \<noteq> 0
      | None \<Rightarrow> (case msg_f msg of None \<Rightarrow> False | Some f \<Rightarrow> f mod 2 = 1))"

subsection \<open>The state\<close>

text \<open>
  The variables of the closure. \<open>currentPage\<close> and \<open>messagesPerPage\<close> are numbers;
  \<open>None\<close> stands for \<open>undefined\<close> and for \<open>NaN\<close>, which behave alike in every
  expression the module evaluates on them. \<open>eventOnMessagesRefreshed\<close> records whether a
  callback is registered.
\<close>

record state =
  loadedFileMeta :: "meta jsval"
  loadedFileData :: "file_data jsval"
  loadedMessages :: "string list option"
  filterFunction :: "(message \<Rightarrow> bool) option"
  selectedChannel :: "string option"
  currentPage :: "int option"
  messagesPerPage :: "nat option"
  eventOnMessagesRefreshed :: bool
  hasActiveFilter :: bool

definition initial_state :: state where
  "initial_state =
     \<lparr>loadedFileMeta = JSUndefined, loadedFileData = JSUndefined, loadedMessages = None,
      filterFunction = None, selectedChannel = None, currentPage = None,
      messagesPerPage = None, eventOnMessagesRefreshed = False, hasActiveFilter = False\<rparr>"

definition getMessages :: "file_data \<Rightarrow> string \<Rightarrow> messages" where
  "getMessages d chan = (case map_of d chan of Some msgs \<Rightarrow> msgs | None \<Rightarrow> [])"

fun getMessageChannel :: "file_data \<Rightarrow> string \<Rightarrow> string option" where
  "getMessageChannel [] mid = None"
| "getMessageChannel ((chan, msgs) # rest) mid =
     (if mid \<in> set (map fst msgs) then Some chan else getMessageChannel rest mid)"

definition getFilteredMessageKeys :: "state \<Rightarrow> file_data \<Rightarrow> string \<Rightarrow> string list" where
  "getFilteredMessageKeys st d chan =
     (let msgs = getMessages d chan; keys = map fst msgs
      in case filterFunction st of
           None \<Rightarrow> keys
         | Some f \<Rightarrow> map fst (filter (\<lambda>(k, msg). f msg) msgs))"

text \<open>
  \<^verbatim>\<open>getPageCount() {
    return !loadedMessages ? 0 : !messagesPerPage ? 1 : Math.ceil(loadedMessages.length / messagesPerPage);
  }\<close>
\<close>

definition getPageCount :: "state \<Rightarrow> int" where
  "getPageCount st =
     (case loadedMessages st of
        None \<Rightarrow> 0
      | Some lm \<Rightarrow>
          (case messagesPerPage st of
             None \<Rightarrow> 1
           | Some n \<Rightarrow> if n = 0 then 1 else (int (length lm) + int n - 1) div int n))"

text \<open>
  \<^verbatim>\<open>getCurrentPage() {
    const total = this.getPageCount();
    if (currentPage > total && total > 0) { currentPage = total; }
    return currentPage || 1;
  }\<close>
\<close>

definition getCurrentPage :: "state \<Rightarrow> state \<times> int" where
  "getCurrentPage st =
     (let total = getPageCount st;
          st' = (case currentPage st of
                   Some p \<Rightarrow> if p > total \<and> total > 0 then st\<lparr>currentPage := Some total\<rparr> else st
                 | None \<Rightarrow> st)
      in (st', case currentPage st' of None \<Rightarrow> 1 | Some p \<Rightarrow> if p = 0 then 1 else p))"

text \<open>
  \<open>getMessageList\<close>: the keys of the current page, each turned into its display record.
  The construction of the record from a key is the parameter \<open>view\<close>.
\<close>

definition getMessageList :: "(state \<Rightarrow> string \<Rightarrow> 'v) \<Rightarrow> state \<Rightarrow> state \<times> 'v list" where
  "getMessageList view st =
     (case loadedMessages st of
        None \<Rightarrow> (st, [])
      | Some lm \<Rightarrow>
          (let (st', page) = getCurrentPage st
           in (st', map (view st')
                 (case messagesPerPage st of
                    None \<Rightarrow> lm
                  | Some n \<Rightarrow> if n = 0 then lm else take n (drop (n * nat (page - 1)) lm)))))"

text \<open>
  The three refresh events hand views of the state to callbacks of the page. Computing
  the views of users and channels reads the state only; computing the message list runs
  \<open>getCurrentPage\<close>, which may store the clamped page. That effect is all the store's
  variables see of a refresh.
\<close>

definition triggerMessagesRefreshed :: "state \<Rightarrow> state" where
  "triggerMessagesRefreshed st =
     (if eventOnMessagesRefreshed st
      then (case loadedMessages st of None \<Rightarrow> st | Some _ \<Rightarrow> fst (getCurrentPage st))
      else st)"

definition onMessagesRefreshed :: "state \<Rightarrow> state" where
  "onMessagesRefreshed st = st\<lparr>eventOnMessagesRefreshed := True\<rparr>"

text \<open>
  \<^verbatim>\<open>uploadFile(meta, data) {
    if (loadedFileMeta != null) { throw "A file is already loaded!"; }
    if (typeof meta !== "object" || typeof data !== "object") { throw "Invalid file format!"; }
    loadedFileMeta = meta; loadedFileData = data;
    loadedMessages = null; selectedChannel = null; currentPage = 1;
    ...
  }\<close>
\<close>

definition uploadFile :: "meta jsval \<Rightarrow> file_data jsval \<Rightarrow> state \<Rightarrow> state \<times> (js_error + unit)" where
  "uploadFile meta data st =
     (if not_nullish (loadedFileMeta st) then (st, Inl AlreadyLoaded)
      else if \<not> typeof_is_object meta \<or> \<not> typeof_is_object data then (st, Inl InvalidFormat)
      else (triggerMessagesRefreshed
              (st\<lparr>loadedFileMeta := meta, loadedFileData := data, loadedMessages := None,
                  selectedChannel := None, currentPage := Some 1\<rparr>),
            Inr ()))"

text \<open>
  \<^verbatim>\<open>selectChannel(channel) {
    currentPage = 1;
    selectedChannel = channel;
    loadedMessages = getFilteredMessageKeys(channel).sort(processor_default.SORTER.oldestToNewest);
    triggerMessagesRefreshed();
  }\<close>
  Reading a channel of \<open>loadedFileData\<close> raises a \<open>TypeError\<close> while no data object is
  loaded; the two assignments before it stand.
\<close>

definition selectChannel :: "string \<Rightarrow> state \<Rightarrow> state \<times> (js_error + unit)" where
  "selectChannel chan st =
     (let st1 = st\<lparr>currentPage := Some 1, selectedChannel := Some chan\<rparr>
      in case loadedFileData st1 of
           JSObject d \<Rightarrow>
             (triggerMessagesRefreshed
                (st1\<lparr>loadedMessages :=
                       Some (js_sort oldestToNewest (getFilteredMessageKeys st1 d chan))\<rparr>),
              Inr ())
         | _ \<Rightarrow> (st1, Inl TypeError))"

definition setMessagesPerPage :: "nat option \<Rightarrow> state \<Rightarrow> state" where
  "setMessagesPerPage amount st = triggerMessagesRefreshed (st\<lparr>messagesPerPage := amount\<rparr>)"

text \<open>
  \<open>updateCurrentPage(action)\<close>; for \<open>pick\<close> the argument is what \<open>parseInt\<close> makes of
  the answer to the prompt, \<open>None\<close> when that is not a number (then nothing happens, and
  nothing is refreshed). \<open>Math.max\<close> and \<open>Math.min\<close> give \<open>NaN\<close> on \<open>NaN\<close>.
\<close>

datatype page_action = First | Prev | Next | Last | Pick "int option" | OtherAction

fun updateCurrentPage :: "page_action \<Rightarrow> state \<Rightarrow> state" where
  "updateCurrentPage First st = triggerMessagesRefreshed (st\<lparr>currentPage := Some 1\<rparr>)"
| "updateCurrentPage Prev st =
     triggerMessagesRefreshed
       (st\<lparr>currentPage := (case currentPage st of None \<Rightarrow> None | Some p \<Rightarrow> Some (max 1 (p - 1)))\<rparr>)"
| "updateCurrentPage Next st =
     triggerMessagesRefreshed
       (st\<lparr>currentPage := (case currentPage st of
                               None \<Rightarrow> None
                             | Some p \<Rightarrow> Some (min (getPageCount st) (p + 1)))\<rparr>)"
| "updateCurrentPage Last st = triggerMessagesRefreshed (st\<lparr>currentPage := Some (getPageCount st)\<rparr>)"
| "updateCurrentPage (Pick None) st = st"
| "updateCurrentPage (Pick (Some page)) st =
     triggerMessagesRefreshed (st\<lparr>currentPage := Some (max 1 (min (getPageCount st) page))\<rparr>)"
| "updateCurrentPage OtherAction st = triggerMessagesRefreshed st"

fun index_of :: "'a list \<Rightarrow> 'a \<Rightarrow> nat option" where
  "index_of [] x = None"
| "index_of (y # ys) x =
     (if y = x then Some 0 else (case index_of ys x of None \<Rightarrow> None | Some i \<Rightarrow> Some (Suc i)))"

text \<open>
  \<^verbatim>\<open>navigateToMessage(id) {
    if (!loadedMessages) { return -1; }
    const channel = getMessageChannel(id);
    if (channel !== null && channel !== selectedChannel) {
      triggerChannelsRefreshed(channel);
      this.selectChannel(channel);
    }
    const index = loadedMessages.indexOf(id);
    if (index === -1) { return -1; }
    currentPage = Math.max(1, Math.min(this.getPageCount(), 1 + Math.floor(index / messagesPerPage)));
    triggerMessagesRefreshed();
    return index % messagesPerPage;
  }\<close>
  The result is a number, \<open>None\<close> when it is \<open>NaN\<close> (a page size of 0 or none). With a
  page size of 0 the quotient is \<open>NaN\<close> at index 0 and infinite above, where the minimum
  with the page count stands.
\<close>

definition navigateToMessage :: "string \<Rightarrow> state \<Rightarrow> state \<times> (js_error + int option)" where
  "navigateToMessage mid st =
     (case loadedMessages st of
        None \<Rightarrow> (st, Inr (Some (- 1)))
      | Some _ \<Rightarrow>
          (case loadedFileData st of
             JSObject d \<Rightarrow>
               (let channel = getMessageChannel d mid;
                    (st1, r1) = (case channel of
                                   None \<Rightarrow> (st, Inr ())
                                 | Some c \<Rightarrow> if Some c \<noteq> selectedChannel st
                                             then selectChannel c st else (st, Inr ()))
                in case (r1, loadedMessages st1) of
                     (Inl err, _) \<Rightarrow> (st1, Inl err)
                   | (Inr _, None) \<Rightarrow> (st1, Inl TypeError)
                   | (Inr _, Some lm) \<Rightarrow>
                       (case index_of lm mid of
                          None \<Rightarrow> (st1, Inr (Some (- 1)))
                        | Some index \<Rightarrow>
                            (case messagesPerPage st1 of
                               None \<Rightarrow>
                                 (triggerMessagesRefreshed (st1\<lparr>currentPage := None\<rparr>), Inr None)
                             | Some n \<Rightarrow>
                                 if n = 0
                                 then (triggerMessagesRefreshed
                                         (st1\<lparr>currentPage :=
                                                (if index = 0 then None
                                                 else Some (max 1 (getPageCount st1)))\<rparr>),
                                       Inr None)
                                 else (triggerMessagesRefreshed
                                         (st1\<lparr>currentPage :=
                                                Some (max 1 (min (getPageCount st1)
                                                               (1 + int (index div n))))\<rparr>),
                                       Inr (Some (int (index mod n)))))))
           | _ \<Rightarrow> (st, Inl TypeError)))"

text \<open>
  \<open>setActiveFilter(filter2)\<close>: the argument is \<open>null\<close> or an object with a type and a
  value. The channel is selected again when \<open>selectedChannel\<close> is truthy: set, and not the
  empty string.
\<close>

record filter_desc =
  filter_type :: string
  filter_value :: string

definition filter_of :: "(string \<Rightarrow> string option) \<Rightarrow> filter_desc option \<Rightarrow> (message \<Rightarrow> bool) option" where
  "filter_of tryParseUrl filter2 =
     (case filter2 of
        None \<Rightarrow> None
      | Some f \<Rightarrow>
          if filter_type f = ''user'' then Some (byUser (filter_value f))
          else if filter_type f = ''contents'' then Some (byContents (filter_value f))
          else if filter_type f = ''withimages'' then Some (withImages tryParseUrl)
          else if filter_type f = ''withdownloads'' then Some (withDownloads tryParseUrl)
          else if filter_type f = ''edited'' then Some isEdited
          else None)"

definition setActiveFilter ::
  "(string \<Rightarrow> string option) \<Rightarrow> filter_desc option \<Rightarrow> state \<Rightarrow> state \<times> (js_error + unit)" where
  "setActiveFilter tryParseUrl filter2 st =
     (let f = filter_of tryParseUrl filter2;
          st1 = st\<lparr>filterFunction := f, hasActiveFilter := (f \<noteq> None)\<rparr>
      in case selectedChannel st1 of
           Some c \<Rightarrow> if c \<noteq> [] then selectChannel c st1 else (st1, Inr ())
         | None \<Rightarrow> (st1, Inr ()))"

subsection \<open>Runs of the store\<close>

datatype event =
    OnMessagesRefreshed
  | UploadFile "meta jsval" "file_data jsval"
  | SelectChannel string
  | SetMessagesPerPage "nat option"
  | UpdateCurrentPage page_action
  | GetCurrentPage
  | NavigateToMessage string
  | SetActiveFilter "filter_desc option"

fun step :: "(string \<Rightarrow> string option) \<Rightarrow> state \<Rightarrow> event \<Rightarrow> state" where
  "step tp st OnMessagesRefreshed = onMessagesRefreshed st"
| "step tp st (UploadFile meta data) = fst (uploadFile meta data st)"
| "step tp st (SelectChannel c) = fst (selectChannel c st)"
| "step tp st (SetMessagesPerPage amount) = setMessagesPerPage amount st"
| "step tp st (UpdateCurrentPage action) = updateCurrentPage action st"
| "step tp st GetCurrentPage = fst (getCurrentPage st)"
| "step tp st (NavigateToMessage mid) = fst (navigateToMessage mid st)"
| "step tp st (SetActiveFilter filter2) = fst (setActiveFilter tp filter2 st)"

definition run :: "(string \<Rightarrow> string option) \<Rightarrow> event list \<Rightarrow> state" where
  "run tp events = foldl (step tp) initial_state events"

section \<open>Viewer: properties of the store\<close>

subsection \<open>An example archive\<close>

definition example_meta :: meta where
  "example_meta =
     \<lparr>meta_users = [(''7'', \<lparr>user_name = ''ann'', user_displayName = None, user_avatar = None\<rparr>)],
      meta_servers = [], meta_channels = []\<rparr>"

definition msg_by :: "string \<Rightarrow> int \<Rightarrow> message" where
  "msg_by usr ts =
     \<lparr>msg_u = usr, msg_t = ts, msg_m = Some ''hi'', msg_a = None, msg_e = None,
      msg_te = None, msg_r = None, msg_f = None\<rparr>"





subsection \<open>Loading\<close>

lemma uploadFile_rejected:
  "not_nullish (loadedFileMeta st) \<Longrightarrow> uploadFile meta data st = (st, Inl AlreadyLoaded)"
  by (simp add: uploadFile_def)

lemma triggerMessagesRefreshed_meta [simp]:
  "loadedFileMeta (triggerMessagesRefreshed st) = loadedFileMeta st"
  by (simp add: triggerMessagesRefreshed_def getCurrentPage_def Let_def split: option.splits)

lemma selectChannel_meta [simp]: "loadedFileMeta (fst (selectChannel c st)) = loadedFileMeta st"
  by (simp add: selectChannel_def Let_def split: jsval.splits)

lemma updateCurrentPage_meta [simp]:
  "loadedFileMeta (updateCurrentPage a st) = loadedFileMeta st"
  by (induction a st rule: updateCurrentPage.induct) auto

lemma navigateToMessage_meta [simp]:
  "loadedFileMeta (fst (navigateToMessage mid st)) = loadedFileMeta st"
  by (auto simp: navigateToMessage_def Let_def
      split: option.splits jsval.splits prod.splits sum.splits if_splits)
    (metis fst_conv selectChannel_meta)+

lemma step_meta:
  "not_nullish (loadedFileMeta st) \<Longrightarrow> loadedFileMeta (step tp st ev) = loadedFileMeta st"
  by (cases ev)
    (auto simp: onMessagesRefreshed_def uploadFile_def setMessagesPerPage_def getCurrentPage_def
      setActiveFilter_def Let_def split: option.splits)

lemma foldl_step_meta:
  "not_nullish (loadedFileMeta st) \<Longrightarrow>
   loadedFileMeta (foldl (step tp) st events) = loadedFileMeta st"
  by (induction events arbitrary: st) (simp_all add: step_meta)

text \<open>
  Once a metadata object is loaded, every later call of \<open>uploadFile\<close>, after any run of
  the other operations, is refused and changes nothing.
\<close>

lemma uploadFile_once_object_loaded:
  assumes "uploadFile (JSObject m) data st0 = (st1, Inr ())"
  shows "uploadFile meta' data' (foldl (step tp) st1 events)
         = (foldl (step tp) st1 events, Inl AlreadyLoaded)"
proof -
  have "loadedFileMeta st1 = JSObject m"
    using assms by (auto simp: uploadFile_def split: if_splits)
  then have "not_nullish (loadedFileMeta (foldl (step tp) st1 events))"
    by (simp add: foldl_step_meta)
  then show ?thesis by (rule uploadFile_rejected)
qed



subsection \<open>Selecting a channel and jumping to a message\<close>


lemma index_of_Some_nonempty: "index_of xs x = Some i \<Longrightarrow> xs \<noteq> []"
  by (cases xs) auto

lemma getPageCount_nonneg: "0 \<le> getPageCount st"
  by (auto simp: getPageCount_def split: option.splits intro!: pos_imp_zdiv_nonneg_iff[THEN iffD2])

lemma selectChannel_ok:
  "loadedFileData st = JSObject d \<Longrightarrow>
   selectChannel c st =
     (st\<lparr>currentPage := Some 1, selectedChannel := Some c,
         loadedMessages := Some (js_sort oldestToNewest (getFilteredMessageKeys st d c))\<rparr>,
      Inr ())"
proof -
  assume d: "loadedFileData st = JSObject d"
  let ?st1 = "st\<lparr>currentPage := Some 1, selectedChannel := Some c\<rparr>"
  let ?st2 = "?st1\<lparr>loadedMessages := Some (js_sort oldestToNewest (getFilteredMessageKeys ?st1 d c))\<rparr>"
  have k: "getFilteredMessageKeys ?st1 d c = getFilteredMessageKeys st d c"
    by (simp add: getFilteredMessageKeys_def)
  have "\<not> (1 > getPageCount ?st2 \<and> getPageCount ?st2 > 0)" by linarith
  then have "triggerMessagesRefreshed ?st2 = ?st2"
    by (simp add: triggerMessagesRefreshed_def getCurrentPage_def Let_def)
  then show ?thesis using d k by (simp add: selectChannel_def Let_def)
qed







subsection \<open>What every run of the store keeps\<close>

text \<open>
  While a message list is loaded: the stored page is not a number, or is at least 0, and at
  most 1 when the list is empty; a data object is loaded and a channel is selected; and
  the list is the sorted list of the keys the filter lets through, unless the selected
  channel is the empty string (which \<open>setActiveFilter\<close> takes for no channel).
\<close>

definition page_ok :: "string list \<Rightarrow> int option \<Rightarrow> bool" where
  "page_ok lm cp = (case cp of None \<Rightarrow> True | Some p \<Rightarrow> 0 \<le> p \<and> (lm = [] \<longrightarrow> p \<le> 1))"

definition store_inv :: "state \<Rightarrow> bool" where
  "store_inv st =
     (case loadedMessages st of
        None \<Rightarrow> True
      | Some lm \<Rightarrow>
          page_ok lm (currentPage st)
          \<and> (\<exists>d c. loadedFileData st = JSObject d \<and> selectedChannel st = Some c
                \<and> (c \<noteq> [] \<longrightarrow> lm = js_sort oldestToNewest (getFilteredMessageKeys st d c))))"

lemma getPageCount_empty: "loadedMessages st = Some [] \<Longrightarrow> getPageCount st \<le> 1"
  by (auto simp: getPageCount_def split: option.splits)

lemma store_inv_page:
  assumes "store_inv st" "\<And>lm. loadedMessages st = Some lm \<Longrightarrow> page_ok lm cp"
  shows "store_inv (st\<lparr>currentPage := cp\<rparr>)"
  using assms by (auto simp: store_inv_def getFilteredMessageKeys_def split: option.splits)

lemma getCurrentPage_state:
  "fst (getCurrentPage st) = st \<or>
   (\<exists>p. currentPage st = Some p \<and> p > getPageCount st \<and> getPageCount st > 0
        \<and> fst (getCurrentPage st) = st\<lparr>currentPage := Some (getPageCount st)\<rparr>)"
  by (auto simp: getCurrentPage_def Let_def split: option.splits)

lemma store_inv_getCurrentPage: "store_inv st \<Longrightarrow> store_inv (fst (getCurrentPage st))"
proof -
  assume inv: "store_inv st"
  from getCurrentPage_state[of st] show ?thesis
  proof
    assume "fst (getCurrentPage st) = st" with inv show ?thesis by simp
  next
    assume "\<exists>p. currentPage st = Some p \<and> p > getPageCount st \<and> getPageCount st > 0
        \<and> fst (getCurrentPage st) = st\<lparr>currentPage := Some (getPageCount st)\<rparr>"
    then obtain p where p: "getPageCount st > 0"
        "fst (getCurrentPage st) = st\<lparr>currentPage := Some (getPageCount st)\<rparr>" by blast
    have "page_ok lm (Some (getPageCount st))" if "loadedMessages st = Some lm" for lm
      using that p(1) getPageCount_empty[of st] by (auto simp: page_ok_def)
    from store_inv_page[OF inv this] p(2) show ?thesis by simp
  qed
qed

lemma store_inv_trigger: "store_inv st \<Longrightarrow> store_inv (triggerMessagesRefreshed st)"
  by (auto simp: triggerMessagesRefreshed_def store_inv_getCurrentPage split: option.splits)

lemma store_inv_flag: "store_inv st \<Longrightarrow> store_inv (st\<lparr>eventOnMessagesRefreshed := b\<rparr>)"
  by (auto simp: store_inv_def getFilteredMessageKeys_def split: option.splits)

lemma store_inv_selectChannel_obj:
  "loadedFileData st = JSObject d \<Longrightarrow> store_inv (fst (selectChannel c st))"
  unfolding selectChannel_ok
  by (simp add: store_inv_def page_ok_def getFilteredMessageKeys_def)

lemma store_inv_selectChannel_none:
  "loadedMessages st = None \<Longrightarrow> store_inv (fst (selectChannel c st))"
  by (cases "loadedFileData st")
    (simp_all add: store_inv_selectChannel_obj, simp_all add: selectChannel_def Let_def store_inv_def)

lemma store_inv_selectChannel: "store_inv st \<Longrightarrow> store_inv (fst (selectChannel c st))"
proof (cases "loadedMessages st")
  case None
  then show ?thesis by (rule store_inv_selectChannel_none)
next
  case (Some lm)
  assume "store_inv st"
  with Some obtain d where "loadedFileData st = JSObject d" by (auto simp: store_inv_def)
  then show ?thesis by (rule store_inv_selectChannel_obj)
qed

lemma store_inv_uploadFile: "store_inv st \<Longrightarrow> store_inv (fst (uploadFile meta data st))"
proof -
  assume inv: "store_inv st"
  have "fst (uploadFile meta data st) = st
      \<or> loadedMessages (fst (uploadFile meta data st)) = None"
    by (simp add: uploadFile_def triggerMessagesRefreshed_def)
  then show ?thesis
  proof
    assume "fst (uploadFile meta data st) = st"
    with inv show ?thesis by simp
  next
    assume "loadedMessages (fst (uploadFile meta data st)) = None"
    then show ?thesis by (simp add: store_inv_def)
  qed
qed

lemma store_inv_setMessagesPerPage: "store_inv st \<Longrightarrow> store_inv (setMessagesPerPage amount st)"
proof -
  assume "store_inv st"
  then have "store_inv (st\<lparr>messagesPerPage := amount\<rparr>)"
    by (auto simp: store_inv_def getFilteredMessageKeys_def split: option.splits)
  then show ?thesis unfolding setMessagesPerPage_def by (rule store_inv_trigger)
qed

lemma store_inv_updateCurrentPage: "store_inv st \<Longrightarrow> store_inv (updateCurrentPage a st)"
proof (induction a st rule: updateCurrentPage.induct)
  case (1 st)
  show ?case unfolding updateCurrentPage.simps
    by (intro store_inv_trigger store_inv_page[OF 1]) (simp add: page_ok_def)
next
  case (2 st)
  have "page_ok lm (case currentPage st of None \<Rightarrow> None | Some p \<Rightarrow> Some (max 1 (p - 1)))"
    if "loadedMessages st = Some lm" for lm
    using 2 that by (auto simp: store_inv_def page_ok_def split: option.splits)
  then show ?case unfolding updateCurrentPage.simps
    by (intro store_inv_trigger store_inv_page[OF 2])
next
  case (3 st)
  have "page_ok lm (case currentPage st of None \<Rightarrow> None | Some p \<Rightarrow> Some (min (getPageCount st) (p + 1)))"
    if "loadedMessages st = Some lm" for lm
    using 3 that getPageCount_nonneg[of st] getPageCount_empty[of st]
    by (auto simp: store_inv_def page_ok_def split: option.splits)
  then show ?case unfolding updateCurrentPage.simps
    by (intro store_inv_trigger store_inv_page[OF 3])
next
  case (4 st)
  have "page_ok lm (Some (getPageCount st))" if "loadedMessages st = Some lm" for lm
    using that getPageCount_nonneg[of st] getPageCount_empty[of st] by (auto simp: page_ok_def)
  then show ?case unfolding updateCurrentPage.simps
    by (intro store_inv_trigger store_inv_page[OF 4])
next
  case (5 st)
  then show ?case by simp
next
  case (6 page st)
  have "page_ok lm (Some (max 1 (min (getPageCount st) page)))" if "loadedMessages st = Some lm" for lm
    using that getPageCount_empty[of st] by (auto simp: page_ok_def)
  then show ?case unfolding updateCurrentPage.simps
    by (intro store_inv_trigger store_inv_page[OF 6])
next
  case (7 st)
  then show ?case by (simp add: store_inv_trigger)
qed

definition nav_target :: "file_data \<Rightarrow> string \<Rightarrow> state \<Rightarrow> state" where
  "nav_target d mid st =
     (case getMessageChannel d mid of
        None \<Rightarrow> st
      | Some c \<Rightarrow> if Some c \<noteq> selectedChannel st then fst (selectChannel c st) else st)"

lemma navigateToMessage_unfold:
  assumes "loadedMessages st = Some lm0" "loadedFileData st = JSObject d"
  shows "navigateToMessage mid st =
     (let st1 = nav_target d mid st in
      case loadedMessages st1 of
        None \<Rightarrow> (st1, Inl TypeError)
      | Some lm \<Rightarrow>
         (case index_of lm mid of
            None \<Rightarrow> (st1, Inr (Some (- 1)))
          | Some index \<Rightarrow>
              (case messagesPerPage st1 of
                 None \<Rightarrow> (triggerMessagesRefreshed (st1\<lparr>currentPage := None\<rparr>), Inr None)
               | Some n \<Rightarrow>
                   if n = 0
                   then (triggerMessagesRefreshed
                           (st1\<lparr>currentPage := (if index = 0 then None
                                                  else Some (max 1 (getPageCount st1)))\<rparr>), Inr None)
                   else (triggerMessagesRefreshed
                           (st1\<lparr>currentPage := Some (max 1 (min (getPageCount st1)
                                                               (1 + int (index div n))))\<rparr>),
                         Inr (Some (int (index mod n)))))))"
proof (cases "getMessageChannel d mid")
  case None
  then show ?thesis using assms
    by (simp add: navigateToMessage_def nav_target_def Let_def)
next
  case (Some c)
  show ?thesis
  proof (cases "Some c \<noteq> selectedChannel st")
    case True
    then show ?thesis using assms Some selectChannel_ok[OF assms(2), of c]
      by (simp add: navigateToMessage_def nav_target_def Let_def)
  next
    case False
    then have sc: "selectedChannel st = Some c" by simp
    show ?thesis using assms Some
      by (simp add: navigateToMessage_def nav_target_def Let_def sc)
  qed
qed

lemma store_inv_nav_target: "store_inv st \<Longrightarrow> store_inv (nav_target d mid st)"
  by (auto simp: nav_target_def store_inv_selectChannel split: option.splits)

lemma store_inv_navigateToMessage:
  assumes inv: "store_inv st"
  shows "store_inv (fst (navigateToMessage mid st))"
proof (cases "loadedMessages st")
  case None
  then show ?thesis using inv by (simp add: navigateToMessage_def)
next
  case (Some lm0)
  then obtain d where d: "loadedFileData st = JSObject d"
    using inv by (auto simp: store_inv_def)
  let ?st1 = "nav_target d mid st"
  have inv1: "store_inv ?st1" using inv by (rule store_inv_nav_target)
  show ?thesis
  proof (cases "loadedMessages ?st1")
    case None
    then show ?thesis using inv1 unfolding navigateToMessage_unfold[OF Some d] by (simp add: Let_def)
  next
    case lm: (Some lm)
    show ?thesis
    proof (cases "index_of lm mid")
      case None
      then show ?thesis using inv1 lm unfolding navigateToMessage_unfold[OF Some d]
        by (simp add: Let_def)
    next
      case (Some index)
      then have ne: "lm \<noteq> []" by (rule index_of_Some_nonempty)
      have ok: "store_inv (triggerMessagesRefreshed (?st1\<lparr>currentPage := cp\<rparr>))"
        if "cp = None \<or> (\<exists>p. cp = Some p \<and> 1 \<le> p)" for cp
      proof -
        have "page_ok lm' cp" if "loadedMessages ?st1 = Some lm'" for lm'
          using that lm ne \<open>cp = None \<or> (\<exists>p. cp = Some p \<and> 1 \<le> p)\<close>
          by (auto simp: page_ok_def)
        from store_inv_page[OF inv1 this] show ?thesis by (rule store_inv_trigger)
      qed
      show ?thesis
        unfolding navigateToMessage_unfold[OF \<open>loadedMessages st = Some lm0\<close> d]
        using lm Some by (auto simp: Let_def split: option.splits intro!: ok)
    qed
  qed
qed

lemma store_inv_setActiveFilter:
  assumes inv: "store_inv st"
  shows "store_inv (fst (setActiveFilter tp filter2 st))"
proof -
  let ?f = "filter_of tp filter2"
  let ?st1 = "st\<lparr>filterFunction := ?f, hasActiveFilter := (?f \<noteq> None)\<rparr>"
  have unchanged: "store_inv ?st1"
    if "loadedMessages st = None \<or> selectedChannel st = Some []"
    using that inv by (auto simp: store_inv_def split: option.splits)
  show ?thesis
  proof (cases "selectedChannel st")
    case None
    then have "loadedMessages st = None"
      using inv by (auto simp: store_inv_def split: option.splits)
    then have "store_inv ?st1" using unchanged by blast
    then show ?thesis using None by (simp add: setActiveFilter_def Let_def)
  next
    case (Some c)
    show ?thesis
    proof (cases "c = []")
      case True
      then have "store_inv ?st1" using unchanged Some by blast
      then show ?thesis using Some True by (simp add: setActiveFilter_def Let_def)
    next
      case False
      have eq: "fst (setActiveFilter tp filter2 st) = fst (selectChannel c ?st1)"
        using Some False by (simp add: setActiveFilter_def Let_def)
      show ?thesis
      proof (cases "loadedMessages st")
        case None
        then have "loadedMessages ?st1 = None" by simp
        then show ?thesis unfolding eq by (rule store_inv_selectChannel_none)
      next
        case (Some lm)
        then obtain d where "loadedFileData st = JSObject d"
          using inv by (auto simp: store_inv_def)
        then have "loadedFileData ?st1 = JSObject d" by simp
        then show ?thesis unfolding eq by (rule store_inv_selectChannel_obj)
      qed
    qed
  qed
qed

lemma store_inv_step: "store_inv st \<Longrightarrow> store_inv (step tp st ev)"
  by (cases ev)
    (simp_all add: onMessagesRefreshed_def store_inv_flag store_inv_uploadFile
      store_inv_selectChannel store_inv_setMessagesPerPage store_inv_updateCurrentPage
      store_inv_getCurrentPage store_inv_navigateToMessage store_inv_setActiveFilter)

lemma store_inv_foldl: "store_inv st \<Longrightarrow> store_inv (foldl (step tp) st events)"
  by (induction events arbitrary: st) (auto intro: store_inv_step)

lemma store_inv_run: "store_inv (run tp events)"
  unfolding run_def by (rule store_inv_foldl) (simp add: store_inv_def initial_state_def)

lemma ceil_div_aux:
  fixes a b :: int
  assumes "0 < b"
  shows "- (- a div b) = (a + b - 1) div b"
proof -
  define q where "q = a div b"
  define r where "r = a mod b"
  have e: "a = b * q + r" by (simp add: q_def r_def)
  have r: "0 \<le> r" "r < b" using assms by (simp_all add: r_def)
  have l: "- a div b = (if r = 0 then - q else - q - 1)"
    using assms by (simp add: zdiv_zminus1_eq_if q_def r_def)
  have "a + b - 1 = (r + b - 1) + q * b" by (simp add: e)
  then have "(a + b - 1) div b = (r + b - 1) div b + q"
    using assms div_mult_self1[of b "r + b - 1" q] by (simp only:)
  moreover have "(r + b - 1) div b = (if r = 0 then 0 else 1)"
  proof (cases "r = 0")
    case True
    then show ?thesis using assms by simp
  next
    case False
    have "(r + b - 1) div b = 1"
      by (rule int_div_pos_eq[where r="r - 1"]) (use r False in auto)
    with False show ?thesis by simp
  qed
  ultimately show ?thesis using l by simp
qed

lemma page_count_ceiling:
  assumes "0 < n"
  shows "(int len + int n - 1) div int n = \<lceil>real len / real n\<rceil>"
proof -
  have "\<lceil>real len / real n\<rceil> = \<lceil>real_of_int (int len) / real_of_int (int n)\<rceil>" by simp
  also have "\<dots> = - (- int len div int n)" by (rule ceiling_divide_eq_div)
  also have "\<dots> = (int len + int n - 1) div int n"
    using assms by (intro ceil_div_aux) simp
  finally show ?thesis by simp
qed


lemma getCurrentPage_value:
  "snd (getCurrentPage st) =
     (case currentPage st of
        None \<Rightarrow> 1
      | Some cp \<Rightarrow> if cp > getPageCount st \<and> getPageCount st > 0 then getPageCount st
                  else if cp = 0 then 1 else cp)"
  by (auto simp: getCurrentPage_def Let_def split: option.splits)

lemma getMessageList_value:
  "loadedMessages st = Some lm \<Longrightarrow>
   getMessageList view st =
     (fst (getCurrentPage st),
      map (view (fst (getCurrentPage st)))
        (case messagesPerPage st of
           None \<Rightarrow> lm
         | Some n \<Rightarrow> if n = 0 then lm
                     else take n (drop (n * nat (snd (getCurrentPage st) - 1)) lm)))"
  by (cases "getCurrentPage st") (simp add: getMessageList_def split: option.splits)

text \<open>
  C5. In every state a run of the store reaches with a message list loaded: a data object
  is loaded and a channel selected, the list being the channel's filtered, sorted keys;
  the page count is 1 for a page size of 0 (or none) and the ceiling of the list's length
  over the page size otherwise; the current page is the stored page clamped into 1 and the
  page count, and 1 for an empty list; the message list is the whole list for a page size
  of 0, and otherwise the page-size entries from index (page - 1) times page size on. So
  120 messages at page size 50 make 3 pages with 20 messages on page 3, and at page size 0
  one page with all 120.
\<close>

theorem pagination_of_loaded_messages:
  assumes "loadedMessages (run tp events) = Some lm"
  shows "(messagesPerPage (run tp events) = None \<or> messagesPerPage (run tp events) = Some 0
           \<longrightarrow> getPageCount (run tp events) = 1
               \<and> snd (getMessageList view (run tp events))
                   = map (view (fst (getCurrentPage (run tp events)))) lm)
    \<and> (\<forall>n. messagesPerPage (run tp events) = Some n \<and> 0 < n
           \<longrightarrow> getPageCount (run tp events) = \<lceil>real (length lm) / real n\<rceil>
               \<and> snd (getMessageList view (run tp events))
                   = map (view (fst (getCurrentPage (run tp events))))
                       (take n (drop (n * nat (snd (getCurrentPage (run tp events)) - 1)) lm)))
    \<and> 1 \<le> snd (getCurrentPage (run tp events))
    \<and> (lm = [] \<longrightarrow> snd (getCurrentPage (run tp events)) = 1)
    \<and> (lm \<noteq> [] \<longrightarrow> snd (getCurrentPage (run tp events)) \<le> getPageCount (run tp events)
          \<and> snd (getCurrentPage (run tp events))
              = (case currentPage (run tp events) of
                   None \<Rightarrow> 1
                 | Some cp \<Rightarrow> max 1 (min (getPageCount (run tp events)) cp)))
    \<and> (\<exists>d c. loadedFileData (run tp events) = JSObject d
            \<and> selectedChannel (run tp events) = Some c
            \<and> (c \<noteq> [] \<longrightarrow> lm = js_sort oldestToNewest
                                  (getFilteredMessageKeys (run tp events) d c)))
    \<and> (length lm = 120 \<and> messagesPerPage (run tp events) = Some 50
          \<longrightarrow> getPageCount (run tp events) = 3
              \<and> (currentPage (run tp events) = Some 3
                    \<longrightarrow> length (snd (getMessageList view (run tp events))) = 20))
    \<and> (length lm = 120 \<and> messagesPerPage (run tp events) = Some 0
          \<longrightarrow> getPageCount (run tp events) = 1
              \<and> length (snd (getMessageList view (run tp events))) = 120)"
proof -
  define st where "st = run tp events"
  have lm: "loadedMessages st = Some lm" using assms by (simp add: st_def)
  have inv: "store_inv st" unfolding st_def by (rule store_inv_run)
  have ok: "page_ok lm (currentPage st)" using inv lm by (simp add: store_inv_def)
  have sel: "\<exists>d c. loadedFileData st = JSObject d \<and> selectedChannel st = Some c
            \<and> (c \<noteq> [] \<longrightarrow> lm = js_sort oldestToNewest (getFilteredMessageKeys st d c))"
    using inv lm by (simp add: store_inv_def)
  have pc0: "getPageCount st = 1"
    if "messagesPerPage st = None \<or> messagesPerPage st = Some 0"
    using that lm by (auto simp: getPageCount_def)
  have pcn: "getPageCount st = \<lceil>real (length lm) / real n\<rceil>"
    if "messagesPerPage st = Some n" "0 < n" for n
    using that lm page_count_ceiling[of n "length lm"] by (simp add: getPageCount_def)
  have pcn': "getPageCount st = (int (length lm) + int n - 1) div int n"
    if "messagesPerPage st = Some n" "0 < n" for n
    using that lm by (simp add: getPageCount_def)
  have l0: "snd (getMessageList view st) = map (view (fst (getCurrentPage st))) lm"
    if "messagesPerPage st = None \<or> messagesPerPage st = Some 0"
    using that by (auto simp: getMessageList_value[OF lm])
  have ln: "snd (getMessageList view st) = map (view (fst (getCurrentPage st)))
         (take n (drop (n * nat (snd (getCurrentPage st) - 1)) lm))"
    if "messagesPerPage st = Some n" "0 < n" for n
    using that by (simp add: getMessageList_value[OF lm])
  have pcpos: "1 \<le> getPageCount st" if "lm \<noteq> []"
  proof (cases "messagesPerPage st")
    case None then show ?thesis using pc0 by simp
  next
    case (Some n)
    show ?thesis
    proof (cases "n = 0")
      case True then show ?thesis using pc0 Some by simp
    next
      case False
      then have n: "0 < n" by simp
      have "0 < length lm" using that by simp
      then have "int n \<le> int (length lm) + int n - 1" by simp
      moreover have "0 < int n" using n by simp
      ultimately have "0 < (int (length lm) + int n - 1) div int n"
        by (simp only: pos_imp_zdiv_pos_iff)
      then show ?thesis using pcn'[OF Some n] by simp
    qed
  qed
  have pcempty: "getPageCount st \<le> 1" if "lm = []"
    using getPageCount_empty[of st] lm that by simp
  have p1: "1 \<le> snd (getCurrentPage st)"
    using ok getPageCount_nonneg[of st]
    by (auto simp: getCurrentPage_value page_ok_def split: option.splits)
  have pe: "snd (getCurrentPage st) = 1" if "lm = []"
    using ok that pcempty[OF that] getPageCount_nonneg[of st]
    by (auto simp: getCurrentPage_value page_ok_def split: option.splits)
  have pn: "snd (getCurrentPage st) \<le> getPageCount st
          \<and> snd (getCurrentPage st)
              = (case currentPage st of None \<Rightarrow> 1 | Some cp \<Rightarrow> max 1 (min (getPageCount st) cp))"
    if "lm \<noteq> []"
    using ok pcpos[OF that]
    by (auto simp: getCurrentPage_value page_ok_def split: option.splits)
  have ex1: "getPageCount st = 3
              \<and> (currentPage st = Some 3 \<longrightarrow> length (snd (getMessageList view st)) = 20)"
    if "length lm = 120" "messagesPerPage st = Some 50"
  proof -
    have pc: "getPageCount st = 3" using pcn'[OF that(2)] that(1) by simp
    have "length (snd (getMessageList view st)) = 20" if cp: "currentPage st = Some 3"
    proof -
      have "snd (getCurrentPage st) = 3" using cp pc by (simp add: getCurrentPage_value)
      then show ?thesis using ln[OF \<open>messagesPerPage st = Some 50\<close>] \<open>length lm = 120\<close> by simp
    qed
    with pc show ?thesis by blast
  qed
  have ex2: "getPageCount st = 1 \<and> length (snd (getMessageList view st)) = 120"
    if "length lm = 120" "messagesPerPage st = Some 0"
    using that pc0 l0 by simp
  from pc0 l0 pcn ln p1 pe pn sel ex1 ex2 show ?thesis
    unfolding st_def by blast
qed

definition big_channel :: messages where
  "big_channel = map (\<lambda>i. (str_nat i, msg_by ''7'' (int i))) [100..<220]"

definition big_data :: file_data where
  "big_data = [(''c'', big_channel)]"

definition paging_events :: "nat \<Rightarrow> event list" where
  "paging_events n =
     [UploadFile (JSObject example_meta) (JSObject big_data), SetMessagesPerPage (Some n),
      SelectChannel ''c'', UpdateCurrentPage Last]"

lemma length_big_channel: "length big_channel = 120"
  by (simp add: big_channel_def)

lemma run_paging_events:
  "run (\<lambda>_. None) (paging_events n) =
     \<lparr>loadedFileMeta = JSObject example_meta, loadedFileData = JSObject big_data,
      loadedMessages = Some (js_sort oldestToNewest (map fst big_channel)),
      filterFunction = None, selectedChannel = Some ''c'',
      currentPage = Some (if n = 0 then 1 else (119 + int n) div int n),
      messagesPerPage = Some n, eventOnMessagesRefreshed = False, hasActiveFilter = False\<rparr>"
  by (simp add: run_def paging_events_def initial_state_def uploadFile_def
      triggerMessagesRefreshed_def setMessagesPerPage_def selectChannel_def
      getFilteredMessageKeys_def getMessages_def big_data_def getPageCount_def
      length_js_sort length_big_channel Let_def)

theorem pagination_of_loaded_messages_witness:
  "loadedMessages (run (\<lambda>_. None) (paging_events 50))
     = Some (js_sort oldestToNewest (map fst big_channel))
   \<and> length (js_sort oldestToNewest (map fst big_channel)) = 120
   \<and> messagesPerPage (run (\<lambda>_. None) (paging_events 50)) = Some 50
   \<and> currentPage (run (\<lambda>_. None) (paging_events 50)) = Some 3
   \<and> getPageCount (run (\<lambda>_. None) (paging_events 50)) = 3
   \<and> length (snd (getMessageList (\<lambda>st key. key) (run (\<lambda>_. None) (paging_events 50)))) = 20
   \<and> loadedMessages (run (\<lambda>_. None) (paging_events 0))
     = Some (js_sort oldestToNewest (map fst big_channel))
   \<and> messagesPerPage (run (\<lambda>_. None) (paging_events 0)) = Some 0
   \<and> getPageCount (run (\<lambda>_. None) (paging_events 0)) = 1
   \<and> length (snd (getMessageList (\<lambda>st key. key) (run (\<lambda>_. None) (paging_events 0)))) = 120"
proof -
  let ?L = "js_sort oldestToNewest (map fst big_channel)"
  have len: "length ?L = 120" by (simp add: length_js_sort length_big_channel)
  have a: "loadedMessages (run (\<lambda>_. None) (paging_events 50)) = Some ?L"
    "messagesPerPage (run (\<lambda>_. None) (paging_events 50)) = Some 50"
    "currentPage (run (\<lambda>_. None) (paging_events 50)) = Some 3"
    by (simp_all add: run_paging_events)
  have b: "loadedMessages (run (\<lambda>_. None) (paging_events 0)) = Some ?L"
    "messagesPerPage (run (\<lambda>_. None) (paging_events 0)) = Some 0"
    by (simp_all add: run_paging_events)
  note t50 = pagination_of_loaded_messages[OF a(1), of "\<lambda>st key. key"]
  note t0 = pagination_of_loaded_messages[OF b(1), of "\<lambda>st key. key"]
  have r50: "getPageCount (run (\<lambda>_. None) (paging_events 50)) = 3
     \<and> length (snd (getMessageList (\<lambda>st key. key) (run (\<lambda>_. None) (paging_events 50)))) = 20"
    using t50 len a(2,3) by blast
  have r0: "getPageCount (run (\<lambda>_. None) (paging_events 0)) = 1
     \<and> length (snd (getMessageList (\<lambda>st key. key) (run (\<lambda>_. None) (paging_events 0)))) = 120"
    using t0 len b(2) by blast
  from a b len r50 r0 show ?thesis by blast
qed

section \<open>Viewer: the channel hierarchy (\<open>generateChannelHierarchy\<close>, \<open>generateChannelOrder\<close>)\<close>

text \<open>
  The hierarchy is a \<open>Map\<close> from a parent id to the \<open>Set\<close> of its children; both keep
  the order of insertion and are lists here, the keys of the map and the elements of a
  set distinct. The key of the root is the empty string.
\<close>

type_synonym hierarchy = "(string \<times> string list) list"

definition set_add :: "string list \<Rightarrow> string \<Rightarrow> string list" where
  "set_add xs x = (if x \<in> set xs then xs else xs @ [x])"

fun set_children :: "hierarchy \<Rightarrow> string \<Rightarrow> string list \<Rightarrow> hierarchy" where
  "set_children [] p cs = []"
| "set_children ((k, v) # h) p cs =
     (if k = p then (k, cs) # h else (k, v) # set_children h p cs)"

definition map_delete :: "hierarchy \<Rightarrow> string \<Rightarrow> hierarchy" where
  "map_delete h k = filter (\<lambda>entry. fst entry \<noteq> k) h"

text \<open>
  \<^verbatim>\<open>function getChildren(parentId) {
    let children = hierarchy.get(parentId);
    if (!children) { children = new Set(); hierarchy.set(parentId, children); }
    return children;
  }\<close>
\<close>

definition getChildren :: "hierarchy \<Rightarrow> string \<Rightarrow> hierarchy \<times> string list" where
  "getChildren h parentId =
     (case map_of h parentId of
        Some children \<Rightarrow> (h, children)
      | None \<Rightarrow> (h @ [(parentId, [])], []))"

text \<open>\<open>channel.parent || ""\<close>\<close>

definition parent_key :: "channel \<Rightarrow> string" where
  "parent_key ch = (case chan_parent ch of None \<Rightarrow> [] | Some p \<Rightarrow> p)"

text \<open>\<open>getChildren(channel.parent || "").add(id)\<close>\<close>

definition add_child :: "hierarchy \<Rightarrow> string \<times> channel \<Rightarrow> hierarchy" where
  "add_child h entry =
     (let (h1, children) = getChildren h (parent_key (snd entry))
      in set_children h1 (parent_key (snd entry)) (set_add children (fst entry)))"

text \<open>A loop body that may fail, run over a list.\<close>

fun for_each :: "('a \<Rightarrow> 's \<Rightarrow> 's option) \<Rightarrow> 'a list \<Rightarrow> 's \<Rightarrow> 's option" where
  "for_each f [] s = Some s"
| "for_each f (x # xs) s = (case f x s of None \<Rightarrow> None | Some s' \<Rightarrow> for_each f xs s')"

text \<open>
  \<^verbatim>\<open>function reachIds(parentId) {
    unreachableIds.delete(parentId);
    const children = hierarchy.get(parentId);
    if (children) { for (const id of children) { reachIds(id); } }
  }\<close>
  The recursion runs as deep as the hierarchy below the root and does not end on a cycle
  that includes the root. The first argument bounds the depth of the calls; \<open>None\<close> is
  the call stack exhausted.
\<close>

primrec reachIds :: "nat \<Rightarrow> hierarchy \<Rightarrow> string \<Rightarrow> string list \<Rightarrow> string list option" where
  "reachIds 0 h parentId unreachableIds = None"
| "reachIds (Suc n) h parentId unreachableIds =
     (let unreachableIds1 = removeAll parentId unreachableIds
      in case map_of h parentId of
           None \<Rightarrow> Some unreachableIds1
         | Some children \<Rightarrow> for_each (reachIds n h) children unreachableIds1)"

text \<open>
  \<^verbatim>\<open>for (const unreachableId of unreachableIds) {
    for (const id of hierarchy.get(unreachableId)) { rootChildren.add(id); }
    hierarchy.delete(unreachableId);
  }\<close>
  The root set is the entry of the key \<open>""\<close>, which \<open>getChildren("")\<close> has made sure of.
\<close>

fun flatten :: "hierarchy \<Rightarrow> string list \<Rightarrow> js_error + hierarchy" where
  "flatten h [] = Inr h"
| "flatten h (unreachableId # rest) =
     (case (map_of h unreachableId, map_of h []) of
        (Some children, Some rootChildren) \<Rightarrow>
          flatten (map_delete (set_children h [] (foldl set_add rootChildren children))
                     unreachableId) rest
      | _ \<Rightarrow> Inl TypeError)"

definition generateChannelHierarchy :: "nat \<Rightarrow> meta jsval \<Rightarrow> js_error + hierarchy" where
  "generateChannelHierarchy fuel fileMeta =
     (case fileMeta of
        JSUndefined \<Rightarrow> Inr []
      | JSNull \<Rightarrow> Inr []
      | JSPrimitive \<Rightarrow> Inl TypeError
      | JSObject m \<Rightarrow>
          (let hierarchy = foldl add_child [] (meta_channels m)
           in case reachIds fuel hierarchy [] (map fst hierarchy) of
                None \<Rightarrow> Inl RangeError
              | Some unreachableIds \<Rightarrow>
                  flatten (fst (getChildren hierarchy [])) unreachableIds))"

text \<open>
  \<open>Array.prototype.sort\<close> with a comparison function that may throw: the stable insertion
  sort of the comparators section, stopping at the first error.
\<close>

fun js_insert_e :: "('a \<Rightarrow> 'a \<Rightarrow> js_error + int) \<Rightarrow> 'a \<Rightarrow> 'a list \<Rightarrow> js_error + 'a list" where
  "js_insert_e cmp x [] = Inr [x]"
| "js_insert_e cmp x (y # ys) =
     (case cmp x y of
        Inl err \<Rightarrow> Inl err
      | Inr r \<Rightarrow>
          if r < 0 then Inr (x # y # ys)
          else (case js_insert_e cmp x ys of Inl err \<Rightarrow> Inl err | Inr zs \<Rightarrow> Inr (y # zs)))"

fun js_sort_from :: "('a \<Rightarrow> 'a \<Rightarrow> js_error + int) \<Rightarrow> 'a list \<Rightarrow> 'a list \<Rightarrow> js_error + 'a list" where
  "js_sort_from cmp acc [] = Inr acc"
| "js_sort_from cmp acc (x # xs) =
     (case js_insert_e cmp x acc of Inl err \<Rightarrow> Inl err | Inr acc' \<Rightarrow> js_sort_from cmp acc' xs)"

definition js_sort_e :: "('a \<Rightarrow> 'a \<Rightarrow> js_error + int) \<Rightarrow> 'a list \<Rightarrow> js_error + 'a list" where
  "js_sort_e cmp xs = js_sort_from cmp [] xs"

text \<open>
  The collation of the platform (\<open>localeCompare\<close> for English, \<open>localeCompare\<close> with
  the numeric option, \<open>toLocaleLowerCase\<close>) is a parameter.
\<close>

record collation =
  localeCompare_en :: "string \<Rightarrow> string \<Rightarrow> int"
  localeCompare_numeric :: "string \<Rightarrow> string \<Rightarrow> int"
  toLocaleLowerCase :: "string \<Rightarrow> string"

definition getServer :: "meta \<Rightarrow> string \<Rightarrow> server" where
  "getServer m sid =
     (case map_of (meta_servers m) sid of
        Some s \<Rightarrow> s
      | None \<Rightarrow> \<lparr>server_name = ''&lt;unknown&gt;'', server_type = ''unknown''\<rparr>)"

text \<open>\<open>a || b\<close> on numbers: \<open>a\<close> unless it is 0.\<close>

definition js_or :: "int \<Rightarrow> int \<Rightarrow> int" where
  "js_or a b = (if a \<noteq> 0 then a else b)"

definition position_or_minus_one :: "channel \<Rightarrow> int" where
  "position_or_minus_one c =
     (case chan_position c of None \<Rightarrow> - 1 | Some p \<Rightarrow> if p = 0 then - 1 else p)"

text \<open>
  \<^verbatim>\<open>(id1, id2) => {
    const c1 = channels[id1]; const c2 = channels[id2];
    const s1 = getServer(c1.server); const s2 = getServer(c2.server);
    return s1.type.localeCompare(s2.type, "en")
      || s1.name.toLocaleLowerCase().localeCompare(s2.name.toLocaleLowerCase(), void 0, { numeric: true })
      || (c1.position || -1) - (c2.position || -1)
      || c1.name.toLocaleLowerCase().localeCompare(c2.name.toLocaleLowerCase(), void 0, { numeric: true });
  }\<close>
  An id that is not a channel makes \<open>c1.server\<close> a \<open>TypeError\<close>.
\<close>

definition compare_channels :: "collation \<Rightarrow> meta \<Rightarrow> string \<Rightarrow> string \<Rightarrow> js_error + int" where
  "compare_channels loc m id1 id2 =
     (case (map_of (meta_channels m) id1, map_of (meta_channels m) id2) of
        (Some c1, Some c2) \<Rightarrow>
          (let s1 = getServer m (chan_server c1); s2 = getServer m (chan_server c2)
           in Inr (js_or (localeCompare_en loc (server_type s1) (server_type s2))
                 (js_or (localeCompare_numeric loc (toLocaleLowerCase loc (server_name s1))
                           (toLocaleLowerCase loc (server_name s2)))
                 (js_or (position_or_minus_one c1 - position_or_minus_one c2)
                        (localeCompare_numeric loc (toLocaleLowerCase loc (chan_name c1))
                           (toLocaleLowerCase loc (chan_name c2)))))))
      | _ \<Rightarrow> Inl TypeError)"

text \<open>
  \<^verbatim>\<open>function getSortedSubTree(parentId) {
    const children = hierarchy.get(parentId);
    if (!children) { return []; }
    const sortedChildren = Array.from(children);
    sortedChildren.sort(...);
    const subTree = [];
    for (const id of sortedChildren) { subTree.push(id); subTree.push(...getSortedSubTree(id)); }
    return subTree;
  }\<close>
  Again the first argument bounds the depth of the calls.
\<close>

fun for_each_e :: "('a \<Rightarrow> 's \<Rightarrow> js_error + 's) \<Rightarrow> 'a list \<Rightarrow> 's \<Rightarrow> js_error + 's" where
  "for_each_e f [] s = Inr s"
| "for_each_e f (x # xs) s = (case f x s of Inl err \<Rightarrow> Inl err | Inr s' \<Rightarrow> for_each_e f xs s')"

primrec getSortedSubTree ::
  "nat \<Rightarrow> (string \<Rightarrow> string \<Rightarrow> js_error + int) \<Rightarrow> hierarchy \<Rightarrow> string \<Rightarrow> js_error + string list" where
  "getSortedSubTree 0 cmp h parentId = Inl RangeError"
| "getSortedSubTree (Suc n) cmp h parentId =
     (case map_of h parentId of
        None \<Rightarrow> Inr []
      | Some children \<Rightarrow>
          (case js_sort_e cmp children of
             Inl err \<Rightarrow> Inl err
           | Inr sortedChildren \<Rightarrow>
               for_each_e
                 (\<lambda>id subTree. case getSortedSubTree n cmp h id of
                                  Inl err \<Rightarrow> Inl err
                                | Inr sub \<Rightarrow> Inr (subTree @ [id] @ sub))
                 sortedChildren []))"

text \<open>
  \<open>generateChannelOrder\<close>: the traversal from the root, \<open>orderArray\<close>, and the map from
  each id to its index in it.
\<close>

definition orderArray :: "collation \<Rightarrow> nat \<Rightarrow> meta jsval \<Rightarrow> js_error + string list" where
  "orderArray loc fuel fileMeta =
     (case fileMeta of
        JSObject m \<Rightarrow>
          (case generateChannelHierarchy fuel fileMeta of
             Inl err \<Rightarrow> Inl err
           | Inr hierarchy \<Rightarrow> getSortedSubTree fuel (compare_channels loc m) hierarchy [])
      | JSPrimitive \<Rightarrow> Inl TypeError
      | _ \<Rightarrow> Inr [])"

definition generateChannelOrder ::
  "collation \<Rightarrow> nat \<Rightarrow> meta jsval \<Rightarrow> js_error + (string \<times> nat) list" where
  "generateChannelOrder loc fuel fileMeta =
     (case orderArray loc fuel fileMeta of
        Inl err \<Rightarrow> Inl err
      | Inr order \<Rightarrow> Inr (zip order [0..<length order]))"

text \<open>
  The parent of an id as the channel map gives it (an id that is no channel, the root
  among them, is its own parent), and the ids from which the parent links lead to the
  root.
\<close>

definition parent_of :: "(string \<times> channel) list \<Rightarrow> string \<Rightarrow> string" where
  "parent_of chans c = (case map_of chans c of Some ch \<Rightarrow> parent_key ch | None \<Rightarrow> c)"

definition root_reachable :: "(string \<times> channel) list \<Rightarrow> string \<Rightarrow> bool" where
  "root_reachable chans c = (\<exists>n. (parent_of chans ^^ n) c = [])"

end
